theory Spec2Isabelle
  imports Main "HOL-Library.Word" "HOL-Library.Multiset" "HOL-Library.Monad_Syntax"
    "HOL-Library.AList"
begin

section \<open>Data model of the Archipelago client core (apdoom.h, apdoom.cpp)\<close>

text \<open>
  The C structures of \<^verbatim>\<open>apdoom.h\<close> become records.  A C \<^verbatim>\<open>int\<close> is a HOL
  integer; the dynamically allocated arrays are lists whose length is the
  allocated size.  Reading or writing an array outside its bounds, dereferencing a
  null pointer, dividing by zero and signed overflow in the ammunition arithmetic
  are undefined behaviour in C: every modelled function that can reach one of them
  returns an \<open>option\<close>, and \<open>None\<close> is that outcome.
\<close>

datatype ap_game_t = doom | doom2 | heretic

record ap_thing_info_t =
  thing_doom_type :: int
  thing_index :: int
  check_sanity_flag :: int
  unreachable :: int

record ap_level_info_t =
  name :: string
  info_keys :: "int list"
  use_skull :: "int list"
  info_check_count :: int
  thing_count :: int
  thing_infos :: "ap_thing_info_t list"
  sanity_check_count :: int
  game_episode :: int
  game_map :: int

record ap_level_state_t =
  completed :: int
  keys :: "int list"
  check_count :: int
  has_map :: int
  unlocked :: int
  checks :: "int list"
  special :: int
  flipped :: int
  music :: int

record ap_inventory_slot_t =
  inv_type :: int
  inv_count :: int

record ap_player_state_t =
  health :: int
  armor_points :: int
  armor_type :: int
  ready_weapon :: int
  kill_count :: int
  item_count :: int
  secret_count :: int
  powers :: "int list"
  weapon_owned :: "int list"
  ammo :: "int list"
  max_ammo :: "int list"
  capacity_upgrades :: "int list"
  inventory :: "ap_inventory_slot_t list"

record ap_state_t =
  level_states :: "ap_level_state_t list"
  player_state :: ap_player_state_t
  state_ep :: int
  state_map :: int
  difficulty :: int
  random_monsters :: int
  random_items :: int
  random_music :: int
  two_ways_keydoors :: int
  episodes :: "int list"
  victory :: int
  flip_levels :: int
  check_sanity :: int
  reset_level_on_death :: int
  goal :: int
  max_ammo_start :: "int list"
  max_ammo_add :: "int list"

record ap_item_t =
  doom_type :: int
  item_ep :: int
  item_map :: int

record ap_level_index_t =
  idx_ep :: int
  idx_map :: int

record ap_notification_icon_t =
  sprite :: string
  notif_x :: int
  notif_y :: int
  xf :: int
  yf :: int
  velx :: int
  vely :: int
  notif_text :: string
  notif_t :: int
  notif_state :: int

text \<open>
  The calls that leave the core: the callbacks of \<^verbatim>\<open>ap_settings_t\<close> and the
  functions of the network library.  The model appends each call to a log.
\<close>

datatype engine_call =
    GiveItem int int int
  | StoryComplete
  | VictoryCallback

text \<open>
  The definitions loaded once by \<^verbatim>\<open>ap_preload_defs_for_game\<close>.  A
  \<^verbatim>\<open>std::map\<close> is an association list in ascending key order with distinct
  keys (the order in which the map is iterated); \<^verbatim>\<open>find\<close> is \<open>map_of\<close>.
\<close>

record defs =
  ap_base_game :: ap_game_t
  preloaded_level_info :: "ap_level_info_t list list"
  preloaded_item_table :: "(int \<times> ap_item_t) list"
  preloaded_location_table :: "(int \<times> (int \<times> (int \<times> int) list) list) list"
  preloaded_type_sprites :: "(int \<times> string) list"

text \<open>
  The file-level variables of \<^verbatim>\<open>apdoom.cpp\<close>.  \<open>rand_seed\<close> and \<open>rand_calls\<close>
  are the state of the C library's generator: the argument of the last
  \<^verbatim>\<open>srand\<close> and the number of \<^verbatim>\<open>rand\<close> calls made since.
\<close>

record globals =
  ap_state :: ap_state_t
  ap_is_in_game :: int
  ap_episode_count :: int
  ap_weapon_count :: int
  ap_ammo_count :: int
  ap_powerup_count :: int
  ap_inventory_count :: int
  max_map_count :: int
  ap_item_queue :: "int list"
  ap_progressive_locations :: "int list"
  ap_notification_icons :: "ap_notification_icon_t list"
  ap_save_dir_name :: string
  rand_seed :: "32 word"
  rand_calls :: nat
  engine_calls :: "engine_call list"

definition AP_CHECK_MAX :: nat where
  "AP_CHECK_MAX = 128"

definition AP_NOTIF_STATE_PENDING :: int where
  "AP_NOTIF_STATE_PENDING = 0"

definition AP_NOTIF_SIZE :: int where
  "AP_NOTIF_SIZE = 30"

definition AP_NOTIF_PADDING :: int where
  "AP_NOTIF_PADDING = 2"

subsection \<open>Arrays and checked arithmetic\<close>

definition arr_get :: "'a list \<Rightarrow> int \<Rightarrow> 'a option" where
  "arr_get xs i = (if 0 \<le> i \<and> nat i < length xs then Some (xs ! nat i) else None)"

definition arr_set :: "'a list \<Rightarrow> int \<Rightarrow> 'a \<Rightarrow> 'a list option" where
  "arr_set xs i v = (if 0 \<le> i \<and> nat i < length xs then Some (xs[nat i := v]) else None)"

definition INT_MAX :: int where
  "INT_MAX = 2147483647"

definition INT_MIN :: int where
  "INT_MIN = - 2147483648"

definition c_int :: "int \<Rightarrow> int option" where
  "c_int v = (if INT_MIN \<le> v \<and> v \<le> INT_MAX then Some v else None)"

text \<open>A loop over a list of indices whose body may hit undefined behaviour.\<close>

fun for_each :: "('a \<Rightarrow> 's \<Rightarrow> 's option) \<Rightarrow> 'a list \<Rightarrow> 's \<Rightarrow> 's option" where
  "for_each body [] s = Some s"
| "for_each body (x # xs) s =
     (case body x s of None \<Rightarrow> None | Some s' \<Rightarrow> for_each body xs s')"

text \<open>The loop counters \<^verbatim>\<open>for (int i = 0; i < n; ++i)\<close>.\<close>

definition upto_count :: "int \<Rightarrow> int list" where
  "upto_count n = map int [0..<nat n]"

subsection \<open>Catalog accessors\<close>

definition get_level_info_table :: "defs \<Rightarrow> ap_level_info_t list list" where
  "get_level_info_table d = preloaded_level_info d"

definition ap_get_map_count :: "defs \<Rightarrow> int \<Rightarrow> int" where
  "ap_get_map_count d ep =
     (let ep' = ep - 1; level_info_table = get_level_info_table d in
      if ep' < 0 \<or> ep' \<ge> int (length level_info_table) then - 1
      else int (length (level_info_table ! nat ep')))"

text \<open>The result is the pointer: \<open>None\<close> is \<^verbatim>\<open>nullptr\<close>.\<close>

definition ap_get_level_info :: "defs \<Rightarrow> ap_level_index_t \<Rightarrow> ap_level_info_t option" where
  "ap_get_level_info d idx =
     (let level_info_table = get_level_info_table d in
      if idx_ep idx < 0 \<or> idx_ep idx \<ge> int (length level_info_table) then None
      else if idx_map idx < 0
            \<or> idx_map idx \<ge> int (length (level_info_table ! nat (idx_ep idx))) then None
      else Some (level_info_table ! nat (idx_ep idx) ! nat (idx_map idx)))"

text \<open>
  \<^verbatim>\<open>&ap_state.level_states[idx.ep * max_map_count + idx.map]\<close>: the model gives
  the array offset; the array is accessed with \<open>arr_get\<close> and \<open>arr_set\<close> where the
  source dereferences the pointer.
\<close>

definition ap_get_level_state :: "globals \<Rightarrow> ap_level_index_t \<Rightarrow> int" where
  "ap_get_level_state g idx = idx_ep idx * max_map_count g + idx_map idx"

definition get_item_type_table :: "defs \<Rightarrow> (int \<times> ap_item_t) list" where
  "get_item_type_table d = preloaded_item_table d"

definition get_location_table :: "defs \<Rightarrow> (int \<times> (int \<times> (int \<times> int) list) list) list" where
  "get_location_table d = preloaded_location_table d"

definition get_sprites :: "defs \<Rightarrow> (int \<times> string) list" where
  "get_sprites d = preloaded_type_sprites d"

subsection \<open>Recording a checked location\<close>

text \<open>The innermost two loops of \<^verbatim>\<open>find_location\<close>, for one episode of the table.\<close>

fun find_location_maps ::
  "int \<Rightarrow> int \<Rightarrow> (int \<times> (int \<times> int) list) list \<Rightarrow> int \<times> int \<times> int \<Rightarrow> int \<times> int \<times> int" where
  "find_location_maps loc_id ep_key [] r = r"
| "find_location_maps loc_id ep_key (loc_index_table # rest) r =
     (let r' = (case find (\<lambda>loc_index. snd loc_index = loc_id) (snd loc_index_table) of
                  Some loc_index \<Rightarrow> (ep_key, fst loc_index_table, fst loc_index)
                | None \<Rightarrow> r)
      in if fst r' \<noteq> - 1 then r' else find_location_maps loc_id ep_key rest r')"

fun find_location_eps ::
  "int \<Rightarrow> (int \<times> (int \<times> (int \<times> int) list) list) list \<Rightarrow> int \<times> int \<times> int
     \<Rightarrow> int \<times> int \<times> int" where
  "find_location_eps loc_id [] r = r"
| "find_location_eps loc_id (loc_map_table # rest) r =
     (let r' = find_location_maps loc_id (fst loc_map_table) (snd loc_map_table) r
      in if fst r' \<noteq> - 1 then r' else find_location_eps loc_id rest r')"

text \<open>The result is the returned flag and the three output parameters ep, map, index.\<close>

definition find_location :: "defs \<Rightarrow> int \<Rightarrow> bool \<times> int \<times> int \<times> int" where
  "find_location d loc_id =
     (let r = find_location_eps loc_id (get_location_table d) (- 1, - 1, - 1)
      in (fst r > 0, r))"

definition level_state_at :: "globals \<Rightarrow> int \<Rightarrow> ap_level_state_t option" where
  "level_state_at g off = arr_get (level_states (ap_state g)) off"

definition set_level_state :: "globals \<Rightarrow> int \<Rightarrow> ap_level_state_t \<Rightarrow> globals option" where
  "set_level_state g off ls =
     (case arr_set (level_states (ap_state g)) off ls of
        None \<Rightarrow> None
      | Some lss \<Rightarrow> Some (g\<lparr>ap_state := (ap_state g)\<lparr>level_states := lss\<rparr>\<rparr>))"

fun is_loc_checked_loop :: "int list \<Rightarrow> int \<Rightarrow> int list \<Rightarrow> bool option" where
  "is_loc_checked_loop cs index [] = Some False"
| "is_loc_checked_loop cs index (i # rest) =
     (case arr_get cs i of
        None \<Rightarrow> None
      | Some c \<Rightarrow> if c = index then Some True else is_loc_checked_loop cs index rest)"

definition is_loc_checked :: "globals \<Rightarrow> ap_level_index_t \<Rightarrow> int \<Rightarrow> bool option" where
  "is_loc_checked g idx index =
     (case level_state_at g (ap_get_level_state g idx) of
        None \<Rightarrow> None
      | Some level_state \<Rightarrow>
          is_loc_checked_loop (checks level_state) index (upto_count (check_count level_state)))"

definition f_locrecv :: "defs \<Rightarrow> int \<Rightarrow> globals \<Rightarrow> globals option" where
  "f_locrecv d loc_id g =
     (case find_location d loc_id of (found, ep, mp, index) \<Rightarrow>
        if \<not> found then Some g
        else
          let idx = \<lparr>idx_ep = ep - 1, idx_map = mp - 1\<rparr> in
          (case is_loc_checked g idx index of
             None \<Rightarrow> None
           | Some True \<Rightarrow> Some g
           | Some False \<Rightarrow>
               if index < 0 then Some g
               else
                 (case level_state_at g (ap_get_level_state g idx) of
                    None \<Rightarrow> None
                  | Some level_state \<Rightarrow>
                      (case arr_set (checks level_state) (check_count level_state) index of
                         None \<Rightarrow> None
                       | Some cs \<Rightarrow>
                           set_level_state g (ap_get_level_state g idx)
                             (level_state\<lparr>checks := cs,
                                check_count := check_count level_state + 1\<rparr>)))))"

text \<open>The recorded locations of a level: the first \<open>check_count\<close> entries of \<open>checks\<close>.\<close>

definition checked_list :: "ap_level_state_t \<Rightarrow> int list" where
  "checked_list ls = take (nat (check_count ls)) (checks ls)"

subsection \<open>Ammunition capacity\<close>

definition get_default_max_ammos :: "defs \<Rightarrow> int list" where
  "get_default_max_ammos d =
     (case ap_base_game d of
        doom \<Rightarrow> [200, 50, 300, 50]
      | doom2 \<Rightarrow> [200, 50, 300, 50]
      | heretic \<Rightarrow> [100, 50, 200, 200, 20, 150])"

text \<open>One iteration of the loop of \<^verbatim>\<open>recalc_max_ammo\<close>.\<close>

definition recalc_max_ammo_step :: "int \<Rightarrow> ap_state_t \<Rightarrow> ap_state_t option" where
  "recalc_max_ammo_step i s = do {
     start \<leftarrow> arr_get (max_ammo_start s) i;
     add \<leftarrow> arr_get (max_ammo_add s) i;
     upgrades \<leftarrow> arr_get (capacity_upgrades (player_state s)) i;
     product \<leftarrow> c_int (add * upgrades);
     recalc_max \<leftarrow> c_int (start + product);
     ma \<leftarrow> arr_set (max_ammo (player_state s)) i (if recalc_max > 999 then 999 else recalc_max);
     Some (s\<lparr>player_state := (player_state s)\<lparr>max_ammo := ma\<rparr>\<rparr>)
   }"

definition recalc_max_ammo :: "globals \<Rightarrow> globals option" where
  "recalc_max_ammo g = do {
     s \<leftarrow> for_each recalc_max_ammo_step (upto_count (ap_ammo_count g)) (ap_state g);
     Some (g\<lparr>ap_state := s\<rparr>)
   }"

text \<open>\<^verbatim>\<open>++ap_state.player_state.capacity_upgrades[i]\<close>\<close>

definition capacity_upgrade :: "int \<Rightarrow> ap_state_t \<Rightarrow> ap_state_t option" where
  "capacity_upgrade i s = do {
     upgrades \<leftarrow> arr_get (capacity_upgrades (player_state s)) i;
     upgrades' \<leftarrow> c_int (upgrades + 1);
     cu \<leftarrow> arr_set (capacity_upgrades (player_state s)) i upgrades';
     Some (s\<lparr>player_state := (player_state s)\<lparr>capacity_upgrades := cu\<rparr>\<rparr>)
   }"

subsection \<open>Receiving an item\<close>

definition doom_keys_map :: "(int \<times> int) list" where
  "doom_keys_map = [(5, 0), (40, 0), (6, 1), (39, 1), (13, 2), (38, 2)]"

definition doom2_keys_map :: "(int \<times> int) list" where
  "doom2_keys_map = [(5, 0), (40, 0), (6, 1), (39, 1), (13, 2), (38, 2)]"

definition heretic_keys_map :: "(int \<times> int) list" where
  "heretic_keys_map = [(80, 0), (73, 1), (79, 2)]"

definition get_keys_map :: "defs \<Rightarrow> (int \<times> int) list" where
  "get_keys_map d =
     (case ap_base_game d of
        doom \<Rightarrow> doom_keys_map | doom2 \<Rightarrow> doom2_keys_map | heretic \<Rightarrow> heretic_keys_map)"

definition get_map_doom_type :: "defs \<Rightarrow> int" where
  "get_map_doom_type d =
     (case ap_base_game d of doom \<Rightarrow> 2026 | doom2 \<Rightarrow> 2026 | heretic \<Rightarrow> 35)"

definition doom_weapons_map :: "(int \<times> int) list" where
  "doom_weapons_map = [(2001, 2), (2002, 3), (2003, 4), (2004, 5), (2006, 6), (2005, 7)]"

definition doom2_weapons_map :: "(int \<times> int) list" where
  "doom2_weapons_map =
     [(2001, 2), (2002, 3), (2003, 4), (2004, 5), (2006, 6), (2005, 7), (82, 8)]"

definition heretic_weapons_map :: "(int \<times> int) list" where
  "heretic_weapons_map = [(2005, 7), (2001, 2), (53, 3), (2003, 5), (2002, 6), (2004, 4)]"

definition get_weapons_map :: "defs \<Rightarrow> (int \<times> int) list" where
  "get_weapons_map d =
     (case ap_base_game d of
        doom \<Rightarrow> doom_weapons_map | doom2 \<Rightarrow> doom2_weapons_map
      | heretic \<Rightarrow> heretic_weapons_map)"

definition get_exmx_name :: "string \<Rightarrow> string" where
  "get_exmx_name nm =
     (if CHR ''('' \<in> set nm then dropWhile (\<lambda>c. c \<noteq> CHR ''('') nm else nm)"

text \<open>
  The notification icon that \<^verbatim>\<open>process_received_item\<close> fills in and pushes:
  \<^verbatim>\<open>snprintf\<close> keeps 8 characters of the sprite name and 259 of the text, and the
  \<^verbatim>\<open>float\<close> fields hold whole numbers at this point (17, -185, 0, 0).
\<close>

definition new_notification_icon :: "string \<Rightarrow> string \<Rightarrow> ap_notification_icon_t" where
  "new_notification_icon sprite_name text =
     \<lparr>sprite = take 8 sprite_name,
      notif_x = AP_NOTIF_SIZE div 2 + AP_NOTIF_PADDING,
      notif_y = - 200 + AP_NOTIF_SIZE div 2,
      xf = AP_NOTIF_SIZE div 2 + AP_NOTIF_PADDING,
      yf = - 200 + AP_NOTIF_SIZE div 2,
      velx = 0, vely = 0,
      notif_text = take 259 text,
      notif_t = 0,
      notif_state = AP_NOTIF_STATE_PENDING\<rparr>"

text \<open>
  \<^verbatim>\<open>process_received_item\<close>: the callback that gives the item to the player in
  the game, and the notification icon.
\<close>

definition process_received_item :: "defs \<Rightarrow> int \<Rightarrow> globals \<Rightarrow> globals option" where
  "process_received_item d item_id g =
     (case map_of (get_item_type_table d) item_id of
        None \<Rightarrow> Some g
      | Some item \<Rightarrow> do {
          text \<leftarrow>
            (if item_ep item \<noteq> - 1 then
               (case ap_get_level_info d \<lparr>idx_ep = item_ep item - 1, idx_map = item_map item - 1\<rparr> of
                  None \<Rightarrow> None
                | Some level_info \<Rightarrow> Some (get_exmx_name (name level_info)))
             else Some []);
          let g1 = g\<lparr>engine_calls := engine_calls g
                     @ [GiveItem (doom_type item) (item_ep item) (item_map item)]\<rparr>;
          (case map_of (get_sprites d) (doom_type item) of
             None \<Rightarrow> Some g1
           | Some sprite_name \<Rightarrow>
               Some (g1\<lparr>ap_notification_icons := ap_notification_icons g1 @
                 [new_notification_icon sprite_name text]\<rparr>))
        })"

text \<open>
  The effects of \<^verbatim>\<open>f_itemrecv\<close> on the session state, one definition for each
  \<^verbatim>\<open>if\<close> of the source and \<open>itemrecv_effects\<close> for their sequence; the argument
  \<open>level_state\<close> is the offset of the level state the source's pointer refers to.
\<close>

definition with_state :: "(ap_state_t \<Rightarrow> ap_state_t option) \<Rightarrow> globals \<Rightarrow> globals option" where
  "with_state f g = do { s \<leftarrow> f (ap_state g); Some (g\<lparr>ap_state := s\<rparr>) }"

definition itemrecv_backpack :: "ap_item_t \<Rightarrow> globals \<Rightarrow> globals option" where
  "itemrecv_backpack item g =
     (if doom_type item = 8 then do {
        g1 \<leftarrow> with_state (for_each capacity_upgrade (upto_count (ap_ammo_count g))) g;
        recalc_max_ammo g1
      } else Some g)"

definition itemrecv_ammo_upgrade :: "ap_item_t \<Rightarrow> globals \<Rightarrow> globals option" where
  "itemrecv_ammo_upgrade item g =
     (if doom_type item \<ge> 65001 \<and> doom_type item \<le> 65006 then do {
        let ammo_num = doom_type item - 65001;
        g1 \<leftarrow> (if ammo_num < ap_ammo_count g then with_state (capacity_upgrade ammo_num) g
               else Some g);
        recalc_max_ammo g1
      } else Some g)"

definition itemrecv_key :: "defs \<Rightarrow> ap_item_t \<Rightarrow> int \<Rightarrow> globals \<Rightarrow> globals option" where
  "itemrecv_key d item level_state g =
     (case map_of (get_keys_map d) (doom_type item) of
        None \<Rightarrow> Some g
      | Some k \<Rightarrow> do {
          ls \<leftarrow> level_state_at g level_state;
          ks \<leftarrow> arr_set (keys ls) k 1;
          set_level_state g level_state (ls\<lparr>keys := ks\<rparr>)
        })"

definition itemrecv_weapon :: "defs \<Rightarrow> ap_item_t \<Rightarrow> globals \<Rightarrow> globals option" where
  "itemrecv_weapon d item g =
     (case map_of (get_weapons_map d) (doom_type item) of
        None \<Rightarrow> Some g
      | Some w \<Rightarrow> do {
          wo \<leftarrow> arr_set (weapon_owned (player_state (ap_state g))) w 1;
          Some (g\<lparr>ap_state := (ap_state g)\<lparr>player_state :=
                  (player_state (ap_state g))\<lparr>weapon_owned := wo\<rparr>\<rparr>\<rparr>)
        })"

definition itemrecv_map :: "defs \<Rightarrow> ap_item_t \<Rightarrow> int \<Rightarrow> globals \<Rightarrow> globals option" where
  "itemrecv_map d item level_state g =
     (if doom_type item = get_map_doom_type d then do {
        ls \<leftarrow> level_state_at g level_state;
        set_level_state g level_state (ls\<lparr>has_map := 1\<rparr>)
      } else Some g)"

definition itemrecv_unlock :: "ap_item_t \<Rightarrow> int \<Rightarrow> globals \<Rightarrow> globals option" where
  "itemrecv_unlock item level_state g =
     (if doom_type item = - 1 then do {
        ls \<leftarrow> level_state_at g level_state;
        set_level_state g level_state (ls\<lparr>unlocked := 1\<rparr>)
      } else Some g)"

definition itemrecv_complete :: "ap_item_t \<Rightarrow> int \<Rightarrow> globals \<Rightarrow> globals option" where
  "itemrecv_complete item level_state g =
     (if doom_type item = - 2 then do {
        ls \<leftarrow> level_state_at g level_state;
        set_level_state g level_state (ls\<lparr>completed := 1\<rparr>)
      } else Some g)"

definition itemrecv_effects :: "defs \<Rightarrow> ap_item_t \<Rightarrow> globals \<Rightarrow> globals option" where
  "itemrecv_effects d item g = do {
     let idx = \<lparr>idx_ep = item_ep item - 1, idx_map = item_map item - 1\<rparr>;
     let level_state = ap_get_level_state g idx;
     g1 \<leftarrow> itemrecv_backpack item g;
     g2 \<leftarrow> itemrecv_ammo_upgrade item g1;
     g3 \<leftarrow> itemrecv_key d item level_state g2;
     g4 \<leftarrow> itemrecv_weapon d item g3;
     g5 \<leftarrow> itemrecv_map d item level_state g4;
     g6 \<leftarrow> itemrecv_unlock item level_state g5;
     itemrecv_complete item level_state g6
   }"

definition f_itemrecv :: "defs \<Rightarrow> int \<Rightarrow> int \<Rightarrow> bool \<Rightarrow> globals \<Rightarrow> globals option" where
  "f_itemrecv d item_id player_id notify_player g =
     (case map_of (get_item_type_table d) item_id of
        None \<Rightarrow> Some g
      | Some item \<Rightarrow> do {
          g7 \<leftarrow> itemrecv_effects d item g;
          if \<not> notify_player then Some g7
          else if ap_is_in_game g7 = 0 then
            Some (g7\<lparr>ap_item_queue := ap_item_queue g7 @ [item_id]\<rparr>)
          else process_received_item d item_id g7
        })"

text \<open>A sequence of item-received events: (item id, sending player, notify flag).\<close>

fun f_itemrecv_seq :: "defs \<Rightarrow> (int \<times> int \<times> bool) list \<Rightarrow> globals \<Rightarrow> globals option" where
  "f_itemrecv_seq d [] g = Some g"
| "f_itemrecv_seq d (ev # evs) g = do {
     g1 \<leftarrow> f_itemrecv d (fst ev) (fst (snd ev)) (snd (snd ev)) g;
     f_itemrecv_seq d evs g1
   }"

subsection \<open>Draining the item queue in \<^verbatim>\<open>apdoom_update\<close>\<close>

text \<open>
  The loop \<^verbatim>\<open>while (!ap_item_queue.empty())\<close>: take the front, erase it, process
  it.
\<close>

function drain_item_queue :: "defs \<Rightarrow> globals \<Rightarrow> globals option" where
  "drain_item_queue d g =
     (case ap_item_queue g of
        [] \<Rightarrow> Some g
      | item_id # rest \<Rightarrow>
          (case process_received_item d item_id (g\<lparr>ap_item_queue := rest\<rparr>) of
             None \<Rightarrow> None
           | Some g1 \<Rightarrow> drain_item_queue d g1))"
  by pat_completeness auto
termination
proof (relation "measure (\<lambda>(d, g). length (ap_item_queue g))")
  show "wf (measure (\<lambda>(d, g). length (ap_item_queue g)))"
    by simp
next
  fix d :: defs and g g1 :: globals and item_id :: int and rest :: "int list"
  assume q: "ap_item_queue g = item_id # rest"
    and p: "process_received_item d item_id (g\<lparr>ap_item_queue := rest\<rparr>) = Some g1"
  from p have "ap_item_queue g1 = rest"
    by (auto simp: process_received_item_def Let_def
        split: option.splits if_splits Option.bind_splits)
  with q show "((d, g1), (d, g)) \<in> measure (\<lambda>(d, g). length (ap_item_queue g))"
    by simp
qed

text \<open>
  The part of \<^verbatim>\<open>apdoom_update\<close> that dequeues the items.  The message pump
  before it and the icon animation after it are not modelled; neither touches the
  queue, and the animation only moves and removes icons.
\<close>

definition apdoom_update_item_queue :: "defs \<Rightarrow> globals \<Rightarrow> globals option" where
  "apdoom_update_item_queue d g =
     (if ap_is_in_game g \<noteq> 0 then drain_item_queue d g else Some g)"

subsection \<open>Victory\<close>

fun victory_goal_levels :: "globals \<Rightarrow> int list \<Rightarrow> bool option" where
  "victory_goal_levels g [] = Some True"
| "victory_goal_levels g (ep # rest) = do {
     enabled \<leftarrow> arr_get (episodes (ap_state g)) ep;
     if enabled = 0 then victory_goal_levels g rest
     else do {
       ls \<leftarrow> level_state_at g (ap_get_level_state g \<lparr>idx_ep = ep, idx_map = 7\<rparr>);
       if completed ls = 0 then Some False else victory_goal_levels g rest
     }
   }"

fun victory_all_maps :: "globals \<Rightarrow> int \<Rightarrow> int list \<Rightarrow> bool option" where
  "victory_all_maps g ep [] = Some True"
| "victory_all_maps g ep (mp # rest) = do {
     ls \<leftarrow> level_state_at g (ap_get_level_state g \<lparr>idx_ep = ep, idx_map = mp\<rparr>);
     if completed ls = 0 then Some False else victory_all_maps g ep rest
   }"

fun victory_all_levels :: "defs \<Rightarrow> globals \<Rightarrow> int list \<Rightarrow> bool option" where
  "victory_all_levels d g [] = Some True"
| "victory_all_levels d g (ep # rest) = do {
     enabled \<leftarrow> arr_get (episodes (ap_state g)) ep;
     if enabled = 0 then victory_all_levels d g rest
     else do {
       ok \<leftarrow> victory_all_maps g ep (upto_count (ap_get_map_count d (ep + 1)));
       if \<not> ok then Some False else victory_all_levels d g rest
     }
   }"

text \<open>
  In the three loops above \<open>Some False\<close> is the early \<^verbatim>\<open>return\<close> of
  \<^verbatim>\<open>apdoom_check_victory\<close>.
\<close>

definition apdoom_check_victory :: "defs \<Rightarrow> globals \<Rightarrow> globals option" where
  "apdoom_check_victory d g =
     (if victory (ap_state g) \<noteq> 0 then Some g
      else do {
        ok \<leftarrow>
          (if goal (ap_state g) = 1 \<and> (ap_base_game d = doom \<or> ap_base_game d = heretic)
           then victory_goal_levels g (upto_count (ap_episode_count g))
           else victory_all_levels d g (upto_count (ap_episode_count g)));
        if \<not> ok then Some g
        else Some (g\<lparr>ap_state := (ap_state g)\<lparr>victory := 1\<rparr>,
                     engine_calls := engine_calls g @ [StoryComplete, VictoryCallback]\<rparr>)
      })"

text \<open>
  Calls of \<^verbatim>\<open>apdoom_check_victory\<close> with the rest of the program running in
  between: before each call the state changes by one of the given functions.
\<close>

fun check_victory_seq :: "defs \<Rightarrow> (globals \<Rightarrow> globals) list \<Rightarrow> globals \<Rightarrow> globals option" where
  "check_victory_seq d [] g = Some g"
| "check_victory_seq d (between # rest) g = do {
     g1 \<leftarrow> apdoom_check_victory d (between g);
     check_victory_seq d rest g1
   }"

subsection \<open>The fresh session state\<close>

record ap_settings_t =
  override_skill :: int
  skill :: int
  override_monster_rando :: int
  monster_rando :: int
  override_item_rando :: int
  item_rando :: int
  override_music_rando :: int
  music_rando :: int
  override_flip_levels :: int
  settings_flip_levels :: int
  force_deathlink_off :: int
  override_reset_level_on_death :: int
  settings_reset_level_on_death :: int

text \<open>A level state after \<^verbatim>\<open>memset\<close> to zero.\<close>

definition zero_level_state :: ap_level_state_t where
  "zero_level_state =
     \<lparr>completed = 0, keys = [0, 0, 0], check_count = 0, has_map = 0, unlocked = 0,
      checks = replicate AP_CHECK_MAX 0, special = 0, flipped = 0, music = 0\<rparr>"

text \<open>
  The first part of \<^verbatim>\<open>apdoom_init\<close>, up to the connection to the server: the
  counts of the base game, the arrays allocated and zeroed, the player's defaults,
  the default ammunition capacities, \<^verbatim>\<open>checks\<close> filled with -1 for every level
  of the table, and the overrides of the settings.  The other file-level variables
  have their static initial values.
\<close>

definition apdoom_init_alloc :: "defs \<Rightarrow> ap_settings_t \<Rightarrow> globals" where
  "apdoom_init_alloc d settings =
     (let is_heretic = (ap_base_game d = heretic);
          weapon_count = 9;
          ammo_count = (if is_heretic then 6 else 4);
          powerup_count = (if is_heretic then 9 else 6);
          inventory_count = (if is_heretic then 14 else 0);
          level_info_table = get_level_info_table d;
          episode_count = length level_info_table;
          map_count = fold (\<lambda>episode_level_info m. max m (length episode_level_info))
                        level_info_table 0;
          max_ammos = get_default_max_ammos d
      in \<lparr>ap_state =
            \<lparr>level_states =
               concat (map (\<lambda>episode_level_info.
                  map (\<lambda>mp. if mp < length episode_level_info
                             then zero_level_state\<lparr>checks := replicate AP_CHECK_MAX (- 1)\<rparr>
                             else zero_level_state) [0..<map_count]) level_info_table),
             player_state =
               \<lparr>health = 100, armor_points = 0, armor_type = 0, ready_weapon = 1,
                kill_count = 0, item_count = 0, secret_count = 0,
                powers = replicate powerup_count 0,
                weapon_owned = (replicate weapon_count 0)[0 := 1, 1 := 1],
                ammo = (replicate ammo_count 0)[0 := 50],
                max_ammo = replicate ammo_count 0,
                capacity_upgrades = replicate ammo_count 0,
                inventory = replicate inventory_count \<lparr>inv_type = 0, inv_count = 0\<rparr>\<rparr>,
             state_ep = 0, state_map = 0,
             difficulty = (if override_skill settings \<noteq> 0 then skill settings else 0),
             random_monsters =
               (if override_monster_rando settings \<noteq> 0 then monster_rando settings else 0),
             random_items =
               (if override_item_rando settings \<noteq> 0 then item_rando settings else 0),
             random_music =
               (if override_music_rando settings \<noteq> 0 then music_rando settings else 0),
             two_ways_keydoors = 0,
             episodes = replicate episode_count 0,
             victory = 0,
             flip_levels =
               (if override_flip_levels settings \<noteq> 0 then settings_flip_levels settings
                else 0),
             check_sanity = 0,
             reset_level_on_death =
               (if override_reset_level_on_death settings \<noteq> 0
                then settings_reset_level_on_death settings else 0),
             goal = 0,
             max_ammo_start = take ammo_count max_ammos,
             max_ammo_add = take ammo_count max_ammos\<rparr>,
          ap_is_in_game = 0,
          ap_episode_count = int episode_count,
          ap_weapon_count = int weapon_count,
          ap_ammo_count = int ammo_count,
          ap_powerup_count = int powerup_count,
          ap_inventory_count = int inventory_count,
          max_map_count = int map_count,
          ap_item_queue = [],
          ap_progressive_locations = [],
          ap_notification_icons = [],
          ap_save_dir_name = [],
          rand_seed = 1,
          rand_calls = 0,
          engine_calls = []\<rparr>)"

subsection \<open>A small game definition\<close>

text \<open>
  One Doom episode of two maps, four items (the unlock of the second map, a
  backpack, the blue keycard of the first map, a shell capacity upgrade) and the
  locations of both maps, -1 being the completion of the level.
\<close>

definition demo_level :: "string \<Rightarrow> int \<Rightarrow> int \<Rightarrow> ap_level_info_t" where
  "demo_level nm ge gm =
     \<lparr>name = nm, info_keys = [0, 0, 0], use_skull = [0, 0, 0], info_check_count = 0,
      thing_count = 0, thing_infos = [], sanity_check_count = 0,
      game_episode = ge, game_map = gm\<rparr>"

definition demo_defs :: defs where
  "demo_defs =
     \<lparr>ap_base_game = doom,
      preloaded_level_info =
        [[demo_level ''Hangar (E1M1)'' 1 1, demo_level ''Nuclear Plant (E1M2)'' 1 2]],
      preloaded_item_table =
        [(100, \<lparr>doom_type = - 1, item_ep = 1, item_map = 2\<rparr>),
         (101, \<lparr>doom_type = 8, item_ep = - 1, item_map = - 1\<rparr>),
         (102, \<lparr>doom_type = 5, item_ep = 1, item_map = 1\<rparr>),
         (103, \<lparr>doom_type = 65002, item_ep = - 1, item_map = - 1\<rparr>)],
      preloaded_location_table =
        [(1, [(1, [(- 1, 500), (0, 501), (1, 502)]), (2, [(- 1, 510), (0, 511)])])],
      preloaded_type_sprites = [(- 1, ''LVLUNLCK''), (5, ''BKEYA0''), (8, ''BPAKA0'')]\<rparr>"

definition demo_settings :: ap_settings_t where
  "demo_settings =
     \<lparr>override_skill = 0, skill = 0, override_monster_rando = 0, monster_rando = 0,
      override_item_rando = 0, item_rando = 0, override_music_rando = 0, music_rando = 0,
      override_flip_levels = 0, settings_flip_levels = 0, force_deathlink_off = 0,
      override_reset_level_on_death = 0, settings_reset_level_on_death = 0\<rparr>"

definition demo_fresh :: globals where
  "demo_fresh = apdoom_init_alloc demo_defs demo_settings"

text \<open>The fresh state with the first episode enabled, and the completion of every level.\<close>

definition demo_started :: globals where
  "demo_started = demo_fresh\<lparr>ap_state := (ap_state demo_fresh)\<lparr>episodes := [1]\<rparr>\<rparr>"

definition complete_all_levels :: "globals \<Rightarrow> globals" where
  "complete_all_levels g =
     g\<lparr>ap_state := (ap_state g)\<lparr>level_states :=
          map (\<lambda>ls. ls\<lparr>completed := 1\<rparr>) (level_states (ap_state g))\<rparr>\<rparr>"

subsection \<open>Notions used in the statements about items\<close>

definition is_capacity_item :: "ap_item_t \<Rightarrow> bool" where
  "is_capacity_item item =
     (doom_type item = 8 \<or> (doom_type item \<ge> 65001 \<and> doom_type item \<le> 65006))"

text \<open>The maximum of ammunition type \<open>i\<close> as \<^verbatim>\<open>recalc_max_ammo\<close> derives it.\<close>

definition derived_max_ammo :: "ap_state_t \<Rightarrow> nat \<Rightarrow> int" where
  "derived_max_ammo s i =
     min 999 (max_ammo_start s ! i + max_ammo_add s ! i * capacity_upgrades (player_state s) ! i)"

definition max_ammo_derived :: "globals \<Rightarrow> bool" where
  "max_ammo_derived g =
     list_all (\<lambda>i. max_ammo (player_state (ap_state g)) ! i = derived_max_ammo (ap_state g) i)
       [0..<nat (ap_ammo_count g)]"

text \<open>The call of the give-item callback that \<^verbatim>\<open>process_received_item\<close> makes for an item id.\<close>

definition give_item_calls :: "defs \<Rightarrow> int \<Rightarrow> engine_call list" where
  "give_item_calls d item_id =
     (case map_of (get_item_type_table d) item_id of
        None \<Rightarrow> []
      | Some item \<Rightarrow> [GiveItem (doom_type item) (item_ep item) (item_map item)])"

text \<open>The ids that a sequence of item-received events puts on the queue outside the game.\<close>

definition queued_ids :: "defs \<Rightarrow> (int \<times> int \<times> bool) list \<Rightarrow> int list" where
  "queued_ids d evs =
     map fst (filter (\<lambda>ev. snd (snd ev) \<and> map_of (get_item_type_table d) (fst ev) \<noteq> None) evs)"


text \<open>
  The common shape of four steps of \<open>itemrecv_effects\<close> (key, map, unlock, complete):
  under a condition, read the level state at an offset and write it back changed.
  \<open>level_step_done\<close> says that such a step has nothing left to change, and
  \<open>weapon_done\<close> the same for the weapon step.
\<close>

definition level_step ::
  "bool \<Rightarrow> (ap_level_state_t \<Rightarrow> bool) \<Rightarrow> (ap_level_state_t \<Rightarrow> ap_level_state_t)
     \<Rightarrow> int \<Rightarrow> globals \<Rightarrow> globals option" where
  "level_step c ok upd off g =
     (if c then
        (case level_state_at g off of
           None \<Rightarrow> None
         | Some ls \<Rightarrow> if ok ls then set_level_state g off (upd ls) else None)
      else Some g)"

definition level_step_done ::
  "bool \<Rightarrow> (ap_level_state_t \<Rightarrow> bool) \<Rightarrow> (ap_level_state_t \<Rightarrow> ap_level_state_t)
     \<Rightarrow> int \<Rightarrow> globals \<Rightarrow> bool" where
  "level_step_done c ok upd off g =
     (c \<longrightarrow> 0 \<le> off \<and> nat off < length (level_states (ap_state g))
        \<and> ok (level_states (ap_state g) ! nat off)
        \<and> upd (level_states (ap_state g) ! nat off) = level_states (ap_state g) ! nat off)"

definition weapon_done :: "defs \<Rightarrow> ap_item_t \<Rightarrow> globals \<Rightarrow> bool" where
  "weapon_done d item g =
     (case map_of (get_weapons_map d) (doom_type item) of
        None \<Rightarrow> True
      | Some w \<Rightarrow> arr_get (weapon_owned (player_state (ap_state g))) w = Some 1)"

definition key_index :: "defs \<Rightarrow> ap_item_t \<Rightarrow> int" where
  "key_index d item =
     (case map_of (get_keys_map d) (doom_type item) of None \<Rightarrow> 0 | Some k \<Rightarrow> k)"


subsection \<open>Seeded randomization in \<^verbatim>\<open>apdoom_init\<close>\<close>

text \<open>
  What the C platform fixes: whether plain \<^verbatim>\<open>char\<close> is signed, and the generator
  of the C library, given as the value that the call number \<open>k\<close> (from 0) of
  \<^verbatim>\<open>rand\<close> returns after \<^verbatim>\<open>srand(seed)\<close>.
\<close>

record c_platform =
  char_signed :: bool
  libc_rand :: "32 word \<Rightarrow> nat \<Rightarrow> int"

definition c_char_to_int :: "bool \<Rightarrow> char \<Rightarrow> int" where
  "c_char_to_int sg c =
     (let v = int (of_char c) in if sg \<and> v \<ge> 128 then v - 256 else v)"

text \<open>
  \<^verbatim>\<open>hash_seed\<close>: the loop ends at the terminating zero of the C string; the sum is
  taken in \<^verbatim>\<open>unsigned long long\<close>.
\<close>

fun hash_seed_loop :: "bool \<Rightarrow> string \<Rightarrow> 64 word \<Rightarrow> 64 word" where
  "hash_seed_loop sg [] hash = hash"
| "hash_seed_loop sg (c # str) hash =
     (if of_char c = (0::nat) then hash
      else hash_seed_loop sg str ((push_bit 5 hash + hash) + word_of_int (c_char_to_int sg c)))"

definition hash_seed :: "bool \<Rightarrow> string \<Rightarrow> 64 word" where
  "hash_seed sg str = hash_seed_loop sg str 5381"

definition apdoom_get_seed :: "globals \<Rightarrow> string" where
  "apdoom_get_seed g = ap_save_dir_name g"

text \<open>\<^verbatim>\<open>srand\<close> takes an \<^verbatim>\<open>unsigned int\<close>: the hash is cut to 32 bits.\<close>

definition c_srand :: "64 word \<Rightarrow> globals \<Rightarrow> globals" where
  "c_srand seed g = g\<lparr>rand_seed := ucast seed, rand_calls := 0\<rparr>"

definition c_rand :: "c_platform \<Rightarrow> globals \<Rightarrow> int \<times> globals" where
  "c_rand p g = (libc_rand p (rand_seed g) (rand_calls g), g\<lparr>rand_calls := Suc (rand_calls g)\<rparr>)"

text \<open>The operator \<^verbatim>\<open>%\<close> of C: the quotient is cut towards zero.\<close>

definition c_rem :: "int \<Rightarrow> int \<Rightarrow> int option" where
  "c_rem a b = (if b = 0 then None else Some (a - b * (sgn a * sgn b * (\<bar>a\<bar> div \<bar>b\<bar>))))"

definition ap_index_to_map :: "defs \<Rightarrow> ap_level_index_t \<Rightarrow> int option" where
  "ap_index_to_map d idx = do {
     row \<leftarrow> arr_get (get_level_info_table d) (idx_ep idx);
     info \<leftarrow> arr_get row (idx_map idx);
     Some (game_map info)
   }"

definition ep4_music :: "int list" where
  "ep4_music =
     [2 * 9 + 3 + 1, 2 * 9 + 1 + 1, 2 * 9 + 2 + 1, 0 * 9 + 4 + 1, 1 * 9 + 6 + 1,
      1 * 9 + 3 + 1, 1 * 9 + 5 + 1, 1 * 9 + 4 + 1, 0 * 9 + 8 + 1]"

definition get_original_music_for_level :: "defs \<Rightarrow> int \<Rightarrow> int \<Rightarrow> int option" where
  "get_original_music_for_level d ep mp =
     (case ap_base_game d of
        doom \<Rightarrow>
          if ep = 4 then arr_get ep4_music (mp - 1)
          else Some (1 + (ep - 1) * ap_get_map_count d ep + (mp - 1))
      | doom2 \<Rightarrow> do {
          m \<leftarrow> ap_index_to_map d \<lparr>idx_ep = ep - 1, idx_map = mp - 1\<rparr>;
          Some (52 + m - 1)
        }
      | heretic \<Rightarrow> Some ((ep - 1) * ap_get_map_count d ep + (mp - 1)))"

definition write_flipped :: "int \<Rightarrow> int \<Rightarrow> globals \<Rightarrow> globals option" where
  "write_flipped off v g = do {
     ls \<leftarrow> level_state_at g off;
     set_level_state g off (ls\<lparr>flipped := v\<rparr>)
   }"

definition write_music :: "int \<Rightarrow> int \<Rightarrow> globals \<Rightarrow> globals option" where
  "write_music off v g = do {
     ls \<leftarrow> level_state_at g off;
     set_level_state g off (ls\<lparr>music := v\<rparr>)
   }"

text \<open>If no episode is selected, the first one is.\<close>

definition select_default_episode :: "globals \<Rightarrow> globals option" where
  "select_default_episode g = do {
     ep_count \<leftarrow> for_each (\<lambda>i n. do {
         e \<leftarrow> arr_get (episodes (ap_state g)) i;
         Some (if e \<noteq> 0 then n + 1 else n)
       }) (upto_count (ap_episode_count g)) (0::int);
     if ep_count = 0 then do {
       es \<leftarrow> arr_set (episodes (ap_state g)) 0 1;
       Some (g\<lparr>ap_state := (ap_state g)\<lparr>episodes := es\<rparr>\<rparr>)
     } else Some g
   }"

definition flip_all_levels :: "defs \<Rightarrow> globals \<Rightarrow> globals option" where
  "flip_all_levels d g =
     for_each (\<lambda>ep.
       for_each (\<lambda>mp g1. write_flipped (ep * max_map_count g1 + mp) 1 g1)
         (upto_count (ap_get_map_count d (ep + 1))))
       (upto_count (ap_episode_count g)) g"

definition flip_random_level :: "c_platform \<Rightarrow> int \<Rightarrow> int \<Rightarrow> globals \<Rightarrow> globals option" where
  "flip_random_level p ep mp g = do {
     let (r, g1) = c_rand p g;
     v \<leftarrow> c_rem r 2;
     write_flipped (ep * max_map_count g1 + mp) v g1
   }"

definition flip_random_levels :: "c_platform \<Rightarrow> defs \<Rightarrow> globals \<Rightarrow> globals option" where
  "flip_random_levels p d g =
     for_each (\<lambda>ep.
       for_each (flip_random_level p ep) (upto_count (ap_get_map_count d (ep + 1))))
       (upto_count (ap_episode_count g)) g"

definition assign_original_music_level :: "defs \<Rightarrow> int \<Rightarrow> int \<Rightarrow> globals \<Rightarrow> globals option" where
  "assign_original_music_level d ep mp g = do {
     m \<leftarrow> get_original_music_for_level d (ep + 1) (mp + 1);
     write_music (ep * max_map_count g + mp) m g
   }"

definition assign_original_music :: "defs \<Rightarrow> globals \<Rightarrow> globals option" where
  "assign_original_music d g =
     for_each (\<lambda>ep.
       for_each (assign_original_music_level d ep) (upto_count (ap_get_map_count d (ep + 1))))
       (upto_count (ap_episode_count g)) g"

definition collect_music_level :: "globals \<Rightarrow> int \<Rightarrow> int \<Rightarrow> int list \<Rightarrow> int list option" where
  "collect_music_level g ep mp music_pool = do {
     ls \<leftarrow> level_state_at g (ep * max_map_count g + mp);
     Some (music_pool @ [music ls])
   }"

definition collect_music_pool :: "defs \<Rightarrow> globals \<Rightarrow> int list option" where
  "collect_music_pool d g =
     for_each (\<lambda>ep music_pool. do {
         enabled \<leftarrow> arr_get (episodes (ap_state g)) ep;
         if enabled \<noteq> 0 \<or> random_music (ap_state g) = 2
         then for_each (collect_music_level g ep) (upto_count (ap_get_map_count d (ep + 1)))
                music_pool
         else Some music_pool
       }) (upto_count (ap_episode_count g)) []"

text \<open>One draw without replacement: the state of the loop is the pool and the globals.\<close>

definition shuffle_music_level ::
  "c_platform \<Rightarrow> int \<Rightarrow> int \<Rightarrow> int list \<times> globals \<Rightarrow> (int list \<times> globals) option" where
  "shuffle_music_level p ep mp st = do {
     let music_pool = fst st;
     let (r, g1) = c_rand p (snd st);
     rnd \<leftarrow> c_rem r (int (length music_pool));
     mus \<leftarrow> arr_get music_pool rnd;
     let music_pool' = take (nat rnd) music_pool @ drop (Suc (nat rnd)) music_pool;
     g2 \<leftarrow> write_music (ep * max_map_count g1 + mp) mus g1;
     Some (music_pool', g2)
   }"

definition shuffle_music ::
  "c_platform \<Rightarrow> defs \<Rightarrow> int list \<times> globals \<Rightarrow> (int list \<times> globals) option" where
  "shuffle_music p d st =
     for_each (\<lambda>ep st1. do {
         enabled \<leftarrow> arr_get (episodes (ap_state (snd st1))) ep;
         if enabled \<noteq> 0
         then for_each (shuffle_music_level p ep) (upto_count (ap_get_map_count d (ep + 1))) st1
         else Some st1
       }) (upto_count (ap_episode_count (snd st))) st"

text \<open>
  The part of \<^verbatim>\<open>apdoom_init\<close> between the connection and the scouting: the default
  episode, the seed, the flips, the original music and its shuffle.
\<close>

definition apdoom_init_randomization :: "c_platform \<Rightarrow> defs \<Rightarrow> globals \<Rightarrow> globals option" where
  "apdoom_init_randomization p d g = do {
     g1 \<leftarrow> select_default_episode g;
     let seed = hash_seed (char_signed p) (apdoom_get_seed g1);
     let g2 = c_srand seed g1;
     g3 \<leftarrow> (if flip_levels (ap_state g2) = 1 then flip_all_levels d g2
            else if flip_levels (ap_state g2) = 2 then flip_random_levels p d g2
            else Some g2);
     g4 \<leftarrow> assign_original_music d g3;
     if random_music (ap_state g4) > 0 then do {
       music_pool \<leftarrow> collect_music_pool d g4;
       st \<leftarrow> shuffle_music p d (music_pool, g4);
       Some (snd st)
     } else Some g4
   }"

text \<open>
  The levels of the table in the order of the loops (episode, then map), those of the
  enabled episodes, the offset of a level in \<open>level_states\<close>, and the requirement on
  the two dimensions that \<^verbatim>\<open>apdoom_init\<close> establishes when it allocates.
\<close>

definition level_list :: "defs \<Rightarrow> (int \<times> int) list" where
  "level_list d =
     concat (map (\<lambda>ep. map (Pair ep) (upto_count (ap_get_map_count d (ep + 1))))
       (upto_count (int (length (preloaded_level_info d)))))"

definition episode_enabled :: "globals \<Rightarrow> int \<Rightarrow> bool" where
  "episode_enabled g ep =
     (case arr_get (episodes (ap_state g)) ep of None \<Rightarrow> False | Some e \<Rightarrow> e \<noteq> 0)"

definition enabled_levels :: "defs \<Rightarrow> globals \<Rightarrow> (int \<times> int) list" where
  "enabled_levels d g = filter (\<lambda>lv. episode_enabled g (fst lv)) (level_list d)"

definition level_offset :: "globals \<Rightarrow> int \<times> int \<Rightarrow> nat" where
  "level_offset g lv = nat (fst lv * max_map_count g + snd lv)"

definition dims_ok :: "defs \<Rightarrow> globals \<Rightarrow> bool" where
  "dims_ok d g =
     (ap_episode_count g = int (length (preloaded_level_info d))
      \<and> list_all (\<lambda>row. int (length row) \<le> max_map_count g) (preloaded_level_info d))"

text \<open>A generator for the examples: the call number plus the seed.\<close>

definition demo_platform :: c_platform where
  "demo_platform = \<lparr>char_signed = True, libc_rand = (\<lambda>seed k. int k + uint seed)\<rparr>"


text \<open>
  \<open>level_fields_changed R g g'\<close>: the state \<open>g'\<close> is \<open>g\<close> but for the count of
  \<^verbatim>\<open>rand\<close> calls and the level states, which are related one by one by \<open>R\<close>.
\<close>

definition level_fields_changed ::
  "(ap_level_state_t \<Rightarrow> ap_level_state_t \<Rightarrow> bool) \<Rightarrow> globals \<Rightarrow> globals \<Rightarrow> bool" where
  "level_fields_changed R g g' =
     (\<exists>r lss. g' = g\<lparr>rand_calls := r, ap_state := (ap_state g)\<lparr>level_states := lss\<rparr>\<rparr>
        \<and> list_all2 R (level_states (ap_state g)) lss)"

definition only_flipped :: "ap_level_state_t \<Rightarrow> ap_level_state_t \<Rightarrow> bool" where
  "only_flipped a b = (\<exists>v. b = a\<lparr>flipped := v\<rparr>)"

definition only_music :: "ap_level_state_t \<Rightarrow> ap_level_state_t \<Rightarrow> bool" where
  "only_music a b = (\<exists>v. b = a\<lparr>music := v\<rparr>)"

text \<open>The levels of the first \<open>n\<close> episodes of the table, in the order of the loops.\<close>

definition levels_upto :: "defs \<Rightarrow> int \<Rightarrow> (int \<times> int) list" where
  "levels_upto d n =
     concat (map (\<lambda>ep. map (Pair ep) (upto_count (ap_get_map_count d (ep + 1)))) (upto_count n))"


text \<open>
  Two states of the small game before the randomization, with the same save
  directory: one with random flips only, one with the first episode enabled and the
  music shuffled as well.
\<close>

definition demo_seeded :: globals where
  "demo_seeded =
     demo_fresh\<lparr>ap_save_dir_name := ''AP_12345_446F6F6D'',
       ap_state := (ap_state demo_fresh)\<lparr>flip_levels := 2\<rparr>\<rparr>"

definition demo_seeded_music :: globals where
  "demo_seeded_music =
     demo_fresh\<lparr>ap_save_dir_name := ''AP_12345_446F6F6D'',
       ap_state := (ap_state demo_fresh)\<lparr>flip_levels := 2, random_music := 1, episodes := [1]\<rparr>\<rparr>"


subsection \<open>The state file: \<^verbatim>\<open>save_state\<close> and \<^verbatim>\<open>load_state\<close>\<close>

unbundle bit_operations_syntax

text \<open>
  The values of the JSON library, as far as the state file has them.  An integer
  value holds 64 bits, an object is a map from keys to values.  The writer and the
  parser of the library are taken to give back the value that was written, and the
  file to open.
\<close>

datatype json =
    JNull
  | JInt int
  | JBool bool
  | JString string
  | JArray "json list"
  | JObject "(string \<times> json) list"

text \<open>
  \<^verbatim>\<open>value[key]\<close>: the member, null when the object has none and when the value is null;
  the library's assertion fails on any other value (\<open>None\<close>).
\<close>

definition json_member :: "json \<Rightarrow> string \<Rightarrow> json option" where
  "json_member j key =
     (case j of
        JNull \<Rightarrow> Some JNull
      | JObject members \<Rightarrow>
          (case map_of members key of None \<Rightarrow> Some JNull | Some v \<Rightarrow> Some v)
      | _ \<Rightarrow> None)"

text \<open>\<^verbatim>\<open>value[index]\<close>: the element, null past the end and when the value is null.\<close>

definition json_index :: "json \<Rightarrow> int \<Rightarrow> json option" where
  "json_index j i =
     (if i < 0 then None
      else case j of
        JNull \<Rightarrow> Some JNull
      | JArray elems \<Rightarrow> Some (if nat i < length elems then elems ! nat i else JNull)
      | _ \<Rightarrow> None)"

text \<open>\<^verbatim>\<open>value[key] = v\<close>: null becomes an object.\<close>

definition json_set :: "json \<Rightarrow> string \<Rightarrow> json \<Rightarrow> json option" where
  "json_set j key v =
     (case j of
        JNull \<Rightarrow> Some (JObject [(key, v)])
      | JObject members \<Rightarrow> Some (JObject (AList.update key v members))
      | _ \<Rightarrow> None)"

text \<open>The elements a range-based \<^verbatim>\<open>for\<close> visits.\<close>

definition json_elements :: "json \<Rightarrow> json list" where
  "json_elements j =
     (case j of JArray elems \<Rightarrow> elems | JObject members \<Rightarrow> map snd members | _ \<Rightarrow> [])"

definition isInt :: "json \<Rightarrow> bool" where
  "isInt j = (case j of JInt v \<Rightarrow> INT_MIN \<le> v \<and> v \<le> INT_MAX | _ \<Rightarrow> False)"

definition asInt :: "json \<Rightarrow> int option" where
  "asInt j =
     (case j of
        JNull \<Rightarrow> Some 0
      | JInt v \<Rightarrow> c_int v
      | JBool b \<Rightarrow> Some (if b then 1 else 0)
      | _ \<Rightarrow> None)"

definition asInt64 :: "json \<Rightarrow> int option" where
  "asInt64 j =
     (case j of
        JNull \<Rightarrow> Some 0
      | JInt v \<Rightarrow> Some v
      | JBool b \<Rightarrow> Some (if b then 1 else 0)
      | _ \<Rightarrow> None)"

text \<open>The result is the new value of \<^verbatim>\<open>out_or_default\<close>.\<close>

definition json_get_int :: "json \<Rightarrow> int \<Rightarrow> int option" where
  "json_get_int j out_or_default = (if isInt j then asInt j else Some out_or_default)"

definition json_get_bool_or :: "json \<Rightarrow> int \<Rightarrow> int option" where
  "json_get_bool_or j out_or_default =
     (if isInt j then map_option (\<lambda>v. out_or_default OR v) (asInt j)
      else Some out_or_default)"

definition APDOOM_VERSION_FULL_TEXT :: string where
  "APDOOM_VERSION_FULL_TEXT = ''APDOOM 1.2.0 PWAD''"

text \<open>The loops that append the first \<open>n\<close> entries of an array to a JSON array.\<close>

definition json_int_array :: "int list \<Rightarrow> int \<Rightarrow> json list option" where
  "json_int_array arr n =
     for_each (\<lambda>i acc. do { v \<leftarrow> arr_get arr i; Some (acc @ [JInt v]) }) (upto_count n) []"

definition json_checks :: "ap_level_state_t \<Rightarrow> json list option" where
  "json_checks level_state =
     for_each (\<lambda>k acc. do {
         c \<leftarrow> arr_get (checks level_state) k;
         Some (if c = - 1 then acc else acc @ [JInt c])
       }) (upto_count (int AP_CHECK_MAX)) []"

definition serialize_level :: "globals \<Rightarrow> int \<Rightarrow> int \<Rightarrow> json option" where
  "serialize_level g ep mp = do {
     level_state \<leftarrow>
       level_state_at g (ap_get_level_state g \<lparr>idx_ep = ep - 1, idx_map = mp - 1\<rparr>);
     keys0 \<leftarrow> arr_get (keys level_state) 0;
     keys1 \<leftarrow> arr_get (keys level_state) 1;
     keys2 \<leftarrow> arr_get (keys level_state) 2;
     j \<leftarrow> json_set JNull ''completed'' (JInt (completed level_state));
     j \<leftarrow> json_set j ''keys0'' (JInt keys0);
     j \<leftarrow> json_set j ''keys1'' (JInt keys1);
     j \<leftarrow> json_set j ''keys2'' (JInt keys2);
     j \<leftarrow> json_set j ''check_count'' (JInt (check_count level_state));
     j \<leftarrow> json_set j ''has_map'' (JInt (has_map level_state));
     j \<leftarrow> json_set j ''unlocked'' (JInt (unlocked level_state));
     j \<leftarrow> json_set j ''special'' (JInt (special level_state));
     cs \<leftarrow> json_checks level_state;
     json_set j ''checks'' (JArray cs)
   }"

definition json_inventory :: "globals \<Rightarrow> json list option" where
  "json_inventory g =
     for_each (\<lambda>i acc. do {
         slot \<leftarrow> arr_get (inventory (player_state (ap_state g))) i;
         if inv_type slot = 9 then Some acc
         else do {
           j \<leftarrow> json_set JNull ''type'' (JInt (inv_type slot));
           j \<leftarrow> json_set j ''count'' (JInt (inv_count slot));
           Some (acc @ [j])
         }
       }) (upto_count (ap_inventory_count g)) []"

definition json_player :: "globals \<Rightarrow> json option" where
  "json_player g = do {
     let ps = player_state (ap_state g);
     j \<leftarrow> json_set JNull ''health'' (JInt (health ps));
     j \<leftarrow> json_set j ''armor_points'' (JInt (armor_points ps));
     j \<leftarrow> json_set j ''armor_type'' (JInt (armor_type ps));
     j \<leftarrow> json_set j ''ready_weapon'' (JInt (ready_weapon ps));
     j \<leftarrow> json_set j ''kill_count'' (JInt (kill_count ps));
     j \<leftarrow> json_set j ''item_count'' (JInt (item_count ps));
     j \<leftarrow> json_set j ''secret_count'' (JInt (secret_count ps));
     json_powers \<leftarrow> json_int_array (powers ps) (ap_powerup_count g);
     j \<leftarrow> json_set j ''powers'' (JArray json_powers);
     json_weapon_owned \<leftarrow> json_int_array (weapon_owned ps) (ap_weapon_count g);
     j \<leftarrow> json_set j ''weapon_owned'' (JArray json_weapon_owned);
     json_ammo \<leftarrow> json_int_array (ammo ps) (ap_ammo_count g);
     j \<leftarrow> json_set j ''ammo'' (JArray json_ammo);
     json_max_ammo \<leftarrow> json_int_array (max_ammo ps) (ap_ammo_count g);
     j \<leftarrow> json_set j ''max_ammo'' (JArray json_max_ammo);
     inv \<leftarrow> json_inventory g;
     json_set j ''inventory'' (JArray inv)
   }"

definition json_episodes :: "defs \<Rightarrow> globals \<Rightarrow> json list option" where
  "json_episodes d g =
     for_each (\<lambda>i acc. do {
         json_levels \<leftarrow>
           for_each (\<lambda>j levels. do {
               l \<leftarrow> serialize_level g (i + 1) (j + 1);
               Some (levels @ [l])
             }) (upto_count (ap_get_map_count d (i + 1))) [];
         Some (acc @ [JArray json_levels])
       }) (upto_count (ap_episode_count g)) []"

definition json_enabled_episodes :: "globals \<Rightarrow> json list option" where
  "json_enabled_episodes g =
     for_each (\<lambda>i acc. do {
         e \<leftarrow> arr_get (episodes (ap_state g)) i;
         Some (acc @ [JBool (e \<noteq> 0)])
       }) (upto_count (ap_episode_count g)) []"

text \<open>
  The value \<^verbatim>\<open>save_state\<close> writes to \<^verbatim>\<open>apstate.json\<close>.  The members
  \<^verbatim>\<open>enabled_episodes\<close> and \<^verbatim>\<open>progressive_locations\<close> come to exist with their
  first element.  \<open>ap_progressive_locations\<close> holds the elements of the
  \<^verbatim>\<open>std::set\<close> in the order of its iteration.
\<close>

definition save_state :: "defs \<Rightarrow> globals \<Rightarrow> json option" where
  "save_state d g = do {
     player \<leftarrow> json_player g;
     j \<leftarrow> json_set JNull ''player'' player;
     eps \<leftarrow> json_episodes d g;
     j \<leftarrow> json_set j ''episodes'' (JArray eps);
     j \<leftarrow> json_set j ''item_queue'' (JArray (map JInt (ap_item_queue g)));
     j \<leftarrow> json_set j ''ep'' (JInt (state_ep (ap_state g)));
     enabled \<leftarrow> json_enabled_episodes g;
     j \<leftarrow> (if enabled = [] then Some j else json_set j ''enabled_episodes'' (JArray enabled));
     j \<leftarrow> json_set j ''map'' (JInt (state_map (ap_state g)));
     j \<leftarrow> (if ap_progressive_locations g = [] then Some j
           else json_set j ''progressive_locations''
                  (JArray (map JInt (ap_progressive_locations g))));
     j \<leftarrow> json_set j ''victory'' (JInt (victory (ap_state g)));
     json_set j ''version'' (JString APDOOM_VERSION_FULL_TEXT)
   }"

text \<open>\<^verbatim>\<open>json[a][b]\<close>.\<close>

definition json_member2 :: "json \<Rightarrow> string \<Rightarrow> string \<Rightarrow> json option" where
  "json_member2 j a b = do { x \<leftarrow> json_member j a; json_member x b }"

text \<open>
  One pass of a loop \<^verbatim>\<open>get(arr_json[i], arr[i])\<close>: \<open>jarr\<close> is the evaluation of the
  JSON array's path, \<open>get\<close> one of the two readers above.
\<close>

definition load_value ::
  "json option \<Rightarrow> (json \<Rightarrow> int \<Rightarrow> int option) \<Rightarrow> int \<Rightarrow> int \<Rightarrow> int option" where
  "load_value jarr get i old = do { j \<leftarrow> jarr; e \<leftarrow> json_index j i; get e old }"

definition load_element ::
  "json option \<Rightarrow> (json \<Rightarrow> int \<Rightarrow> int option) \<Rightarrow> int \<Rightarrow> int list \<Rightarrow> int list option" where
  "load_element jarr get i arr = do {
     old \<leftarrow> arr_get arr i;
     v \<leftarrow> load_value jarr get i old;
     arr_set arr i v
   }"

definition load_inventory_slot :: "json \<Rightarrow> int \<Rightarrow> ap_inventory_slot_t \<Rightarrow> ap_inventory_slot_t option" where
  "load_inventory_slot json i old = do {
     inv \<leftarrow> json_member2 json ''player'' ''inventory'';
     inventory_slot \<leftarrow> json_index inv i;
     jt \<leftarrow> json_member inventory_slot ''type'';
     t \<leftarrow> json_get_int jt (inv_type old);
     jc \<leftarrow> json_member inventory_slot ''count'';
     c \<leftarrow> json_get_int jc (inv_count old);
     Some (old\<lparr>inv_type := t, inv_count := c\<rparr>)
   }"

definition load_player_state :: "json \<Rightarrow> globals \<Rightarrow> ap_player_state_t option" where
  "load_player_state json g = do {
     let ps = player_state (ap_state g);
     j \<leftarrow> json_member2 json ''player'' ''health'';
     v_health \<leftarrow> json_get_int j (health ps);
     j \<leftarrow> json_member2 json ''player'' ''armor_points'';
     v_armor_points \<leftarrow> json_get_int j (armor_points ps);
     j \<leftarrow> json_member2 json ''player'' ''armor_type'';
     v_armor_type \<leftarrow> json_get_int j (armor_type ps);
     j \<leftarrow> json_member2 json ''player'' ''ready_weapon'';
     v_ready_weapon \<leftarrow> json_get_int j (ready_weapon ps);
     j \<leftarrow> json_member2 json ''player'' ''kill_count'';
     v_kill_count \<leftarrow> json_get_int j (kill_count ps);
     j \<leftarrow> json_member2 json ''player'' ''item_count'';
     v_item_count \<leftarrow> json_get_int j (item_count ps);
     j \<leftarrow> json_member2 json ''player'' ''secret_count'';
     v_secret_count \<leftarrow> json_get_int j (secret_count ps);
     v_powers \<leftarrow> for_each (load_element (json_member2 json ''player'' ''powers'') json_get_int)
       (upto_count (ap_powerup_count g)) (powers ps);
     v_weapon_owned \<leftarrow>
       for_each (load_element (json_member2 json ''player'' ''weapon_owned'') json_get_bool_or)
         (upto_count (ap_weapon_count g)) (weapon_owned ps);
     v_ammos \<leftarrow> for_each (\<lambda>i am. do {
         a \<leftarrow> load_element (json_member2 json ''player'' ''ammo'') json_get_int i (fst am);
         m \<leftarrow> load_element (json_member2 json ''player'' ''max_ammo'') json_get_int i (snd am);
         Some (a, m)
       }) (upto_count (ap_ammo_count g)) (ammo ps, max_ammo ps);
     v_inventory \<leftarrow> for_each (\<lambda>i inv. do {
         old \<leftarrow> arr_get inv i;
         slot \<leftarrow> load_inventory_slot json i old;
         arr_set inv i slot
       }) (upto_count (ap_inventory_count g)) (inventory ps);
     Some (ps\<lparr>health := v_health, armor_points := v_armor_points, armor_type := v_armor_type,
       ready_weapon := v_ready_weapon, kill_count := v_kill_count, item_count := v_item_count,
       secret_count := v_secret_count, powers := v_powers, weapon_owned := v_weapon_owned,
       ammo := fst v_ammos, max_ammo := snd v_ammos, inventory := v_inventory\<rparr>)
   }"

text \<open>\<^verbatim>\<open>json_get_bool_or(json["episodes"][i][j][key], field)\<close>.\<close>

definition load_level_flag :: "json \<Rightarrow> int \<Rightarrow> int \<Rightarrow> string \<Rightarrow> int \<Rightarrow> int option" where
  "load_level_flag json i j key old = do {
     eps \<leftarrow> json_member json ''episodes'';
     ep \<leftarrow> json_index eps i;
     lvl \<leftarrow> json_index ep j;
     v \<leftarrow> json_member lvl key;
     json_get_bool_or v old
   }"

definition load_level_fields ::
  "json \<Rightarrow> int \<times> int \<Rightarrow> ap_level_state_t \<Rightarrow> ap_level_state_t option" where
  "load_level_fields json lv level_state = do {
     v_completed \<leftarrow> load_level_flag json (fst lv) (snd lv) ''completed'' (completed level_state);
     k0 \<leftarrow> arr_get (keys level_state) 0;
     k0' \<leftarrow> load_level_flag json (fst lv) (snd lv) ''keys0'' k0;
     ks \<leftarrow> arr_set (keys level_state) 0 k0';
     k1 \<leftarrow> arr_get ks 1;
     k1' \<leftarrow> load_level_flag json (fst lv) (snd lv) ''keys1'' k1;
     ks \<leftarrow> arr_set ks 1 k1';
     k2 \<leftarrow> arr_get ks 2;
     k2' \<leftarrow> load_level_flag json (fst lv) (snd lv) ''keys2'' k2;
     ks \<leftarrow> arr_set ks 2 k2';
     v_has_map \<leftarrow> load_level_flag json (fst lv) (snd lv) ''has_map'' (has_map level_state);
     v_unlocked \<leftarrow> load_level_flag json (fst lv) (snd lv) ''unlocked'' (unlocked level_state);
     v_special \<leftarrow> load_level_flag json (fst lv) (snd lv) ''special'' (special level_state);
     Some (level_state\<lparr>completed := v_completed, keys := ks, has_map := v_has_map,
       unlocked := v_unlocked, special := v_special\<rparr>)
   }"

definition load_level ::
  "json \<Rightarrow> globals \<Rightarrow> int \<Rightarrow> int \<Rightarrow> ap_level_state_t list \<Rightarrow> ap_level_state_t list option" where
  "load_level json g i j lss = do {
     level_state \<leftarrow> arr_get lss (ap_get_level_state g \<lparr>idx_ep = i, idx_map = j\<rparr>);
     level_state' \<leftarrow> load_level_fields json (i, j) level_state;
     arr_set lss (ap_get_level_state g \<lparr>idx_ep = i, idx_map = j\<rparr>) level_state'
   }"

definition load_level_states :: "defs \<Rightarrow> json \<Rightarrow> globals \<Rightarrow> ap_level_state_t list option" where
  "load_level_states d json g =
     for_each (\<lambda>i. for_each (load_level json g i) (upto_count (ap_get_map_count d (i + 1))))
       (upto_count (ap_episode_count g)) (level_states (ap_state g))"

text \<open>\<^verbatim>\<open>std::set::insert\<close> on the list of the elements in increasing order.\<close>

definition set_insert :: "int \<Rightarrow> int list \<Rightarrow> int list" where
  "set_insert x xs = (if x \<in> set xs then xs else insort x xs)"

text \<open>
  \<^verbatim>\<open>load_state\<close> on the content of the file, \<open>None\<close> when there is no file.  The
  checked locations of the levels are not read (the lines are commented out in the
  source), and \<^verbatim>\<open>capacity_upgrades\<close> is not in the file.
\<close>

definition load_state :: "defs \<Rightarrow> json option \<Rightarrow> globals \<Rightarrow> globals option" where
  "load_state d file g =
     (case file of
        None \<Rightarrow> Some g
      | Some json \<Rightarrow> do {
          ps \<leftarrow> load_player_state json g;
          lss \<leftarrow> load_level_states d json g;
          jq \<leftarrow> json_member json ''item_queue'';
          queue \<leftarrow> for_each (\<lambda>item_id_json q. do { v \<leftarrow> asInt64 item_id_json; Some (q @ [v]) })
            (json_elements jq) (ap_item_queue g);
          jep \<leftarrow> json_member json ''ep'';
          v_ep \<leftarrow> json_get_int jep (state_ep (ap_state g));
          v_episodes \<leftarrow> for_each (load_element (json_member json ''enabled_episodes'') json_get_int)
            (upto_count (ap_episode_count g)) (episodes (ap_state g));
          jmap \<leftarrow> json_member json ''map'';
          v_map \<leftarrow> json_get_int jmap (state_map (ap_state g));
          jprog \<leftarrow> json_member json ''progressive_locations'';
          locs \<leftarrow> for_each (\<lambda>prog_json s. do { v \<leftarrow> asInt64 prog_json; Some (set_insert v s) })
            (json_elements jprog) (ap_progressive_locations g);
          jv \<leftarrow> json_member json ''victory'';
          v_victory \<leftarrow> json_get_bool_or jv (victory (ap_state g));
          Some (g\<lparr>ap_state := (ap_state g)\<lparr>player_state := ps, level_states := lss,
                    state_ep := v_ep, episodes := v_episodes, state_map := v_map,
                    victory := v_victory\<rparr>,
                 ap_item_queue := queue, ap_progressive_locations := locs\<rparr>)
        })"

text \<open>
  A session in play: the first level has a checked location and its blue key, the
  shell capacity was upgraded once, two items are pending and two locations scouted.
\<close>

definition demo_played :: globals where
  "demo_played =
     demo_started\<lparr>
       ap_item_queue := [102, 103],
       ap_progressive_locations := [502, 511],
       ap_state := (ap_state demo_started)\<lparr>
         state_ep := 1, state_map := 2,
         level_states := (level_states (ap_state demo_started))
           [0 := (level_states (ap_state demo_started) ! 0)\<lparr>
              keys := [1, 0, 0], check_count := 1,
              checks := (replicate AP_CHECK_MAX (- 1))[0 := 0]\<rparr>],
         player_state := (player_state (ap_state demo_started))\<lparr>
           health := 42, weapon_owned := [1, 1, 1, 0, 0, 0, 0, 0, 0],
           ammo := [50, 12, 0, 0], max_ammo := [200, 100, 300, 50],
           capacity_upgrades := [0, 1, 0, 0]\<rparr>\<rparr>\<rparr>"

text \<open>The values of the type \<^verbatim>\<open>int\<close>, and a state whose saved fields hold such values.\<close>

definition is_c_int :: "int \<Rightarrow> bool" where
  "is_c_int v = (INT_MIN \<le> v \<and> v \<le> INT_MAX)"

definition state_ints_ok :: "globals \<Rightarrow> bool" where
  "state_ints_ok g =
     (let st = ap_state g; ps = player_state st in
      is_c_int (health ps) \<and> is_c_int (armor_points ps) \<and> is_c_int (armor_type ps)
      \<and> is_c_int (ready_weapon ps) \<and> is_c_int (kill_count ps) \<and> is_c_int (item_count ps)
      \<and> is_c_int (secret_count ps)
      \<and> list_all is_c_int (powers ps) \<and> list_all is_c_int (weapon_owned ps)
      \<and> list_all is_c_int (ammo ps) \<and> list_all is_c_int (max_ammo ps)
      \<and> list_all (\<lambda>slot. is_c_int (inv_type slot) \<and> is_c_int (inv_count slot)) (inventory ps)
      \<and> list_all (\<lambda>ls. is_c_int (completed ls) \<and> list_all is_c_int (keys ls)
            \<and> is_c_int (has_map ls) \<and> is_c_int (unlocked ls) \<and> is_c_int (special ls))
          (level_states st)
      \<and> is_c_int (state_ep st) \<and> is_c_int (state_map st) \<and> is_c_int (victory st))"

text \<open>The inventory slots \<^verbatim>\<open>save_state\<close> writes: the first \<open>n\<close> without those of type 9.\<close>

definition saved_slots :: "globals \<Rightarrow> ap_inventory_slot_t list" where
  "saved_slots g =
     filter (\<lambda>slot. inv_type slot \<noteq> 9)
       (take (nat (ap_inventory_count g)) (inventory (player_state (ap_state g))))"

section \<open>Catalog accessors are total\<close>

text \<open>
  C10.  \<^verbatim>\<open>ap_get_map_count\<close> returns -1 for every episode number outside
  1..(number of episodes) and the episode's map count inside; \<^verbatim>\<open>ap_get_level_info\<close>
  returns the null pointer for every level index outside the table and the table's
  entry inside.
\<close>

theorem catalog_accessors_total:
  "ap_get_map_count d ep =
     (if 1 \<le> ep \<and> ep \<le> int (length (preloaded_level_info d))
      then int (length (preloaded_level_info d ! nat (ep - 1))) else - 1)
   \<and> ap_get_level_info d idx =
     (if 0 \<le> idx_ep idx \<and> idx_ep idx < int (length (preloaded_level_info d))
         \<and> 0 \<le> idx_map idx
         \<and> idx_map idx < int (length (preloaded_level_info d ! nat (idx_ep idx)))
      then Some (preloaded_level_info d ! nat (idx_ep idx) ! nat (idx_map idx))
      else None)"
  by (auto simp: ap_get_map_count_def ap_get_level_info_def get_level_info_table_def Let_def)

section \<open>Recording a checked location\<close>

lemma is_loc_checked_loop_append:
  "is_loc_checked_loop cs index (xs @ ys) =
     (case is_loc_checked_loop cs index xs of
        Some False \<Rightarrow> is_loc_checked_loop cs index ys
      | r \<Rightarrow> r)"
  by (induction xs) (auto split: option.splits)

lemma is_loc_checked_loop_upto:
  "is_loc_checked_loop cs index (map int [0..<n]) =
     (if index \<in> set (take n cs) then Some True
      else if n \<le> length cs then Some False else None)"
proof (induction n)
  case 0
  then show ?case by simp
next
  case (Suc n)
  show ?case
  proof (cases "n < length cs")
    case True
    then show ?thesis
      using Suc by (auto simp: is_loc_checked_loop_append arr_get_def take_Suc_conv_app_nth)
  next
    case False
    then show ?thesis
      using Suc by (auto simp: is_loc_checked_loop_append arr_get_def)
  qed
qed

lemma is_loc_checked_eq:
  "is_loc_checked g idx index =
     (case level_state_at g (ap_get_level_state g idx) of
        None \<Rightarrow> None
      | Some ls \<Rightarrow>
          if index \<in> set (checked_list ls) then Some True
          else if nat (check_count ls) \<le> length (checks ls) then Some False else None)"
  by (simp add: is_loc_checked_def upto_count_def is_loc_checked_loop_upto checked_list_def
      split: option.splits)

text \<open>What a call that returns has done, and that a second call changes nothing.\<close>

lemma f_locrecv_Some_once:
  assumes run: "f_locrecv d loc_id g = Some g1"
    and loc: "find_location d loc_id = (found, ep, mp, index)"
    and off: "off = ap_get_level_state g \<lparr>idx_ep = ep - 1, idx_map = mp - 1\<rparr>"
  shows "f_locrecv d loc_id g1 = Some g1 \<and>
    (if \<not> found \<or> index < 0
        \<or> (\<exists>ls. level_state_at g off = Some ls \<and> index \<in> set (checked_list ls))
     then g1 = g
     else \<exists>ls ls1. level_state_at g off = Some ls \<and> level_state_at g1 off = Some ls1
        \<and> checked_list ls1 = checked_list ls @ [index]
        \<and> check_count ls1 = check_count ls + 1
        \<and> ls1 = ls\<lparr>checks := (checks ls)[nat (check_count ls) := index],
                    check_count := check_count ls + 1\<rparr>
        \<and> g1 = g\<lparr>ap_state := (ap_state g)\<lparr>level_states :=
                    (level_states (ap_state g))[nat off := ls1]\<rparr>\<rparr>)"
proof (cases "\<not> found \<or> index < 0
        \<or> (\<exists>ls. level_state_at g off = Some ls \<and> index \<in> set (checked_list ls))")
  case True
  then have "g1 = g"
    using run loc off
    by (auto simp: f_locrecv_def is_loc_checked_eq Let_def split: option.splits if_splits bool.splits)
  then show ?thesis using True run by simp
next
  case False
  then have found: found and nonneg: "0 \<le> index" by auto
  from run loc off found obtain ls where ls: "level_state_at g off = Some ls"
    by (auto simp: f_locrecv_def is_loc_checked_eq Let_def split: option.splits if_splits bool.splits)
  with False have notin: "index \<notin> set (checked_list ls)" by auto
  define ls1 where "ls1 = ls\<lparr>checks := (checks ls)[nat (check_count ls) := index],
                    check_count := check_count ls + 1\<rparr>"
  from run loc off found nonneg ls notin
  have cc: "0 \<le> check_count ls" "nat (check_count ls) < length (checks ls)"
    and offr: "0 \<le> off" "nat off < length (level_states (ap_state g))"
    and g1: "g1 = g\<lparr>ap_state := (ap_state g)\<lparr>level_states :=
                    (level_states (ap_state g))[nat off := ls1]\<rparr>\<rparr>"
    by (auto simp: f_locrecv_def is_loc_checked_eq Let_def arr_set_def set_level_state_def
        level_state_at_def arr_get_def ls1_def
        split: option.splits if_splits bool.splits)
  have at1: "level_state_at g1 off = Some ls1"
    using offr by (simp add: g1 level_state_at_def arr_get_def)
  have off1: "ap_get_level_state g1 \<lparr>idx_ep = ep - 1, idx_map = mp - 1\<rparr> = off"
    by (simp add: g1 off ap_get_level_state_def)
  have cl: "checked_list ls1 = checked_list ls @ [index]"
    using cc by (simp add: checked_list_def ls1_def nat_add_distrib take_Suc_conv_app_nth)
  have "f_locrecv d loc_id g1 = Some g1"
    using loc found at1 off1 cl
    by (simp add: f_locrecv_def is_loc_checked_eq Let_def)
  then show ?thesis
    using False ls at1 cl g1 by (auto simp: ls1_def)
qed

text \<open>
  C1, as the code has it.  Receiving the same checked location twice gives the state
  that receiving it once gives, and both calls return.  The call changes nothing when
  the location id is not in the table, when its index is negative (the completion of
  the level, -1) or when the index is already recorded; otherwise it writes the index
  at position \<open>check_count\<close> of \<open>checks\<close> and adds one to \<open>check_count\<close>, so the
  list of recorded locations grows by this index at its end and nothing else changes.
  This is for a level state inside \<open>level_states\<close> whose \<open>checks\<close> has its
  \<open>AP_CHECK_MAX\<close> entries and whose \<open>check_count\<close> is between 0 and
  \<open>AP_CHECK_MAX\<close>, and below \<open>AP_CHECK_MAX\<close> when the index is to be written: the
  source writes \<^verbatim>\<open>checks[check_count]\<close> without a test of the bound.
\<close>

theorem f_locrecv_records_once:
  assumes loc: "find_location d loc_id = (found, ep, mp, index)"
    and off: "off = ap_get_level_state g \<lparr>idx_ep = ep - 1, idx_map = mp - 1\<rparr>"
    and wf: "found \<Longrightarrow> level_state_at g off = Some ls \<and> length (checks ls) = AP_CHECK_MAX
      \<and> 0 \<le> check_count ls \<and> check_count ls \<le> int AP_CHECK_MAX"
    and room: "found \<Longrightarrow> 0 \<le> index \<Longrightarrow> index \<notin> set (checked_list ls) \<Longrightarrow>
      check_count ls < int AP_CHECK_MAX"
  shows "\<exists>g1. f_locrecv d loc_id g = Some g1 \<and> f_locrecv d loc_id g1 = Some g1 \<and>
    (if \<not> found \<or> index < 0 \<or> index \<in> set (checked_list ls)
     then g1 = g
     else \<exists>ls1. level_state_at g1 off = Some ls1
        \<and> checked_list ls1 = checked_list ls @ [index]
        \<and> check_count ls1 = check_count ls + 1
        \<and> ls1 = ls\<lparr>checks := (checks ls)[nat (check_count ls) := index],
                    check_count := check_count ls + 1\<rparr>
        \<and> g1 = g\<lparr>ap_state := (ap_state g)\<lparr>level_states :=
                    (level_states (ap_state g))[nat off := ls1]\<rparr>\<rparr>)"
proof -
  have "\<exists>g1. f_locrecv d loc_id g = Some g1"
  proof (cases found)
    case False
    with loc show ?thesis by (simp add: f_locrecv_def)
  next
    case True
    note w = wf [OF True]
    show ?thesis
    proof (cases "index < 0 \<or> index \<in> set (checked_list ls)")
      case True
      with \<open>found\<close> loc off w show ?thesis
        by (auto simp: f_locrecv_def is_loc_checked_eq Let_def)
    next
      case False
      with room [OF \<open>found\<close>] have "check_count ls < int AP_CHECK_MAX" by simp
      with w have "nat (check_count ls) < length (checks ls)" by (simp add: nat_less_iff)
      moreover from w have "0 \<le> off \<and> nat off < length (level_states (ap_state g))"
        by (auto simp: level_state_at_def arr_get_def split: if_splits)
      ultimately show ?thesis
        using False \<open>found\<close> loc off w
        by (auto simp: f_locrecv_def is_loc_checked_eq Let_def arr_set_def set_level_state_def)
    qed
  qed
  then obtain g1 where run: "f_locrecv d loc_id g = Some g1" ..
  note once = f_locrecv_Some_once [OF run loc off]
  have "if \<not> found \<or> index < 0 \<or> index \<in> set (checked_list ls)
     then g1 = g
     else \<exists>ls1. level_state_at g1 off = Some ls1
        \<and> checked_list ls1 = checked_list ls @ [index]
        \<and> check_count ls1 = check_count ls + 1
        \<and> ls1 = ls\<lparr>checks := (checks ls)[nat (check_count ls) := index],
                    check_count := check_count ls + 1\<rparr>
        \<and> g1 = g\<lparr>ap_state := (ap_state g)\<lparr>level_states :=
                    (level_states (ap_state g))[nat off := ls1]\<rparr>\<rparr>"
  proof (cases found)
    case False
    with once show ?thesis by simp
  next
    case True
    with wf have "level_state_at g off = Some ls" by simp
    with once show ?thesis
      by (auto split: if_splits)
  qed
  with run once show ?thesis by blast
qed

text \<open>
  The first location of the first map (id 501, index 0) arrives in the fresh state
  of the small game: it is recorded, and a second delivery changes nothing.
\<close>

theorem f_locrecv_records_once_witness:
  "(case f_locrecv demo_defs 501 demo_fresh of
      None \<Rightarrow> False
    | Some g1 \<Rightarrow> f_locrecv demo_defs 501 g1 = Some g1
        \<and> map_option checked_list (level_state_at g1 0) = Some [0]
        \<and> g1 \<noteq> demo_fresh)"
proof -
  have loc: "find_location demo_defs 501 = (True, 1, 1, 0)"
    by code_simp
  have off: "(0::int) = ap_get_level_state demo_fresh \<lparr>idx_ep = 1 - 1, idx_map = 1 - 1\<rparr>"
    by code_simp
  have wf: "level_state_at demo_fresh 0 = Some (level_states (ap_state demo_fresh) ! 0)
      \<and> length (checks (level_states (ap_state demo_fresh) ! 0)) = AP_CHECK_MAX
      \<and> 0 \<le> check_count (level_states (ap_state demo_fresh) ! 0)
      \<and> check_count (level_states (ap_state demo_fresh) ! 0) \<le> int AP_CHECK_MAX"
    by code_simp
  have room: "check_count (level_states (ap_state demo_fresh) ! 0) < int AP_CHECK_MAX"
    by code_simp
  have before: "checked_list (level_states (ap_state demo_fresh) ! 0) = []"
    by code_simp
  from f_locrecv_records_once [OF loc off wf room] obtain g1 where
    run: "f_locrecv demo_defs 501 demo_fresh = Some g1"
    and again: "f_locrecv demo_defs 501 g1 = Some g1"
    and eff: "\<exists>ls1. level_state_at g1 0 = Some ls1
        \<and> checked_list ls1 = checked_list (level_states (ap_state demo_fresh) ! 0) @ [0]
        \<and> check_count ls1 = check_count (level_states (ap_state demo_fresh) ! 0) + 1"
    by (auto simp: before split: if_splits)
  from eff before have "map_option checked_list (level_state_at g1 0) = Some [0]"
    by auto
  moreover from eff wf have "g1 \<noteq> demo_fresh"
    by auto
  ultimately show ?thesis
    using run again by simp
qed

text \<open>
  The claim as the specification words it fails for the completion of a level: its
  location (id 500) has index -1, which is not recorded in the fresh state, and the
  call appends nothing.
\<close>

theorem f_locrecv_negative_index_counterexample:
  "find_location demo_defs 500 = (True, 1, 1, - 1)
   \<and> map_option checked_list (level_state_at demo_fresh 0) = Some []
   \<and> f_locrecv demo_defs 500 demo_fresh = Some demo_fresh"
  by code_simp

section \<open>Victory is latched\<close>

lemma apdoom_check_victory_cases:
  assumes "apdoom_check_victory d g = Some g1"
  shows "g1 = g
    \<or> (victory (ap_state g) = 0 \<and> victory (ap_state g1) = 1
        \<and> engine_calls g1 = engine_calls g @ [StoryComplete, VictoryCallback])"
  using assms
  by (auto simp: apdoom_check_victory_def split: if_splits Option.bind_splits)

lemma check_victory_seq_latched:
  assumes "\<forall>between\<in>set envs. \<forall>g. victory (ap_state (between g)) = victory (ap_state g)
              \<and> engine_calls (between g) = engine_calls g"
    and "check_victory_seq d envs g = Some g1"
    and "victory (ap_state g) \<noteq> 0"
  shows "victory (ap_state g1) = victory (ap_state g) \<and> engine_calls g1 = engine_calls g"
  using assms
proof (induction envs arbitrary: g)
  case Nil
  then show ?case by simp
next
  case (Cons between envs)
  from Cons.prems(1) have b: "victory (ap_state (between g)) = victory (ap_state g)"
      "engine_calls (between g) = engine_calls g"
    by simp_all
  with Cons.prems(3) have "apdoom_check_victory d (between g) = Some (between g)"
    by (simp add: apdoom_check_victory_def)
  with Cons.prems(2) have "check_victory_seq d envs (between g) = Some g1"
    by simp
  with Cons.IH [of "between g"] Cons.prems(1,3) b show ?case
    by simp
qed

text \<open>
  C3.  Take any number of calls of \<^verbatim>\<open>apdoom_check_victory\<close>, the rest of the
  program changing the state between them in any way that leaves the victory flag
  and the outgoing calls alone.  A victory flag that is set stays as it is, and over
  the whole run the story-complete signal and the victory callback are each issued
  at most once, together, and not at all when the flag was set at the start.
\<close>

theorem check_victory_fires_once:
  assumes env: "\<forall>between\<in>set envs. \<forall>g. victory (ap_state (between g)) = victory (ap_state g)
              \<and> engine_calls (between g) = engine_calls g"
    and run: "check_victory_seq d envs g = Some g1"
  shows "(victory (ap_state g) \<noteq> 0 \<longrightarrow>
            victory (ap_state g1) = victory (ap_state g) \<and> engine_calls g1 = engine_calls g)
    \<and> (engine_calls g1 = engine_calls g
        \<or> engine_calls g1 = engine_calls g @ [StoryComplete, VictoryCallback])
    \<and> count_list (engine_calls g1) VictoryCallback
        \<le> count_list (engine_calls g) VictoryCallback + 1
    \<and> count_list (engine_calls g1) StoryComplete
        \<le> count_list (engine_calls g) StoryComplete + 1"
proof -
  have fired: "engine_calls g1 = engine_calls g
        \<or> engine_calls g1 = engine_calls g @ [StoryComplete, VictoryCallback]"
    using env run
  proof (induction envs arbitrary: g)
    case Nil
    then show ?case by simp
  next
    case (Cons between envs)
    from Cons.prems(1) have b: "engine_calls (between g) = engine_calls g"
      by simp
    from Cons.prems(2) obtain g2 where
      step: "apdoom_check_victory d (between g) = Some g2"
      and rest: "check_victory_seq d envs g2 = Some g1"
      by (auto split: Option.bind_splits)
    from Cons.prems(1) have env': "\<forall>between\<in>set envs. \<forall>g.
        victory (ap_state (between g)) = victory (ap_state g)
        \<and> engine_calls (between g) = engine_calls g"
      by simp
    from apdoom_check_victory_cases [OF step] show ?case
    proof
      assume "g2 = between g"
      with Cons.IH [OF env' rest] b show ?thesis by simp
    next
      assume won: "victory (ap_state (between g)) = 0 \<and> victory (ap_state g2) = 1
        \<and> engine_calls g2 = engine_calls (between g) @ [StoryComplete, VictoryCallback]"
      then have "victory (ap_state g2) \<noteq> 0" by simp
      from check_victory_seq_latched [OF env' rest this] won b show ?thesis by simp
    qed
  qed
  from check_victory_seq_latched [OF env run]
  have "victory (ap_state g) \<noteq> 0 \<longrightarrow>
      victory (ap_state g1) = victory (ap_state g) \<and> engine_calls g1 = engine_calls g"
    by blast
  with fired show ?thesis by auto
qed

text \<open>
  Three calls in the small game: nothing is completed at the first, every level at
  the second, and the third finds the flag set.  The signal and the callback are
  issued once.
\<close>

theorem check_victory_fires_once_witness:
  "(case check_victory_seq demo_defs [id, complete_all_levels, id] demo_started of
      None \<Rightarrow> False
    | Some g1 \<Rightarrow> victory (ap_state g1) = 1
        \<and> engine_calls g1 = [StoryComplete, VictoryCallback]
        \<and> count_list (engine_calls g1) VictoryCallback \<le> 1)"
proof -
  have env: "\<forall>between\<in>set [id, complete_all_levels, id]. \<forall>g.
      victory (ap_state (between g)) = victory (ap_state g)
      \<and> engine_calls (between g) = engine_calls g"
    by (simp add: complete_all_levels_def)
  have "map_option (\<lambda>g1. (victory (ap_state g1), engine_calls g1))
      (check_victory_seq demo_defs [id, complete_all_levels, id] demo_started)
    = Some (1, [StoryComplete, VictoryCallback])"
    by code_simp
  then obtain g1 where
    run: "check_victory_seq demo_defs [id, complete_all_levels, id] demo_started = Some g1"
    and res: "victory (ap_state g1) = 1" "engine_calls g1 = [StoryComplete, VictoryCallback]"
    by auto
  have "engine_calls demo_started = []"
    by code_simp
  with check_victory_fires_once [OF env run]
  have "count_list (engine_calls g1) VictoryCallback \<le> 1"
    by simp
  with run res show ?thesis by simp
qed

section \<open>Receiving items: what each step changes\<close>

lemma for_each_append:
  "for_each body (xs @ ys) s =
     (case for_each body xs s of None \<Rightarrow> None | Some s1 \<Rightarrow> for_each body ys s1)"
  by (induction xs arbitrary: s) (auto split: option.splits)

lemma recalc_max_ammo_step_Some:
  assumes "recalc_max_ammo_step (int i) s = Some s1"
  shows "i < length (max_ammo (player_state s))
    \<and> s1 = s\<lparr>player_state := (player_state s)\<lparr>max_ammo :=
              (max_ammo (player_state s))[i := derived_max_ammo s i]\<rparr>\<rparr>"
  using assms
  by (auto simp: recalc_max_ammo_step_def arr_get_def arr_set_def c_int_def derived_max_ammo_def
      split: Option.bind_splits if_splits)

lemma recalc_max_ammo_loop:
  assumes "for_each recalc_max_ammo_step (map int [0..<n]) s = Some s1"
  shows "\<exists>ma. s1 = s\<lparr>player_state := (player_state s)\<lparr>max_ammo := ma\<rparr>\<rparr>
    \<and> length ma = length (max_ammo (player_state s))
    \<and> (\<forall>i<n. ma ! i = derived_max_ammo s i)"
  using assms
proof (induction n arbitrary: s1)
  case 0
  then show ?case
    by (intro exI [of _ "max_ammo (player_state s)"]) simp
next
  case (Suc n)
  from Suc.prems obtain s2 where
    loop: "for_each recalc_max_ammo_step (map int [0..<n]) s = Some s2"
    and step: "recalc_max_ammo_step (int n) s2 = Some s1"
    by (auto simp: for_each_append split: option.splits)
  from Suc.IH [OF loop] obtain ma where
    ma: "s2 = s\<lparr>player_state := (player_state s)\<lparr>max_ammo := ma\<rparr>\<rparr>"
      "length ma = length (max_ammo (player_state s))"
      "\<forall>i<n. ma ! i = derived_max_ammo s i"
    by blast
  from recalc_max_ammo_step_Some [OF step] ma
  have n: "n < length ma"
    and s1: "s1 = s\<lparr>player_state := (player_state s)\<lparr>max_ammo :=
        ma[n := derived_max_ammo s n]\<rparr>\<rparr>"
    by (simp_all add: derived_max_ammo_def)
  have "\<forall>i<Suc n. (ma[n := derived_max_ammo s n]) ! i = derived_max_ammo s i"
    using ma(3) n by (auto simp: nth_list_update less_Suc_eq)
  with s1 ma(2) show ?case
    by (intro exI [of _ "ma[n := derived_max_ammo s n]"]) simp
qed

lemma recalc_max_ammo_Some:
  assumes "recalc_max_ammo g = Some g1"
  shows "max_ammo_derived g1
    \<and> (\<exists>ma. g1 = g\<lparr>ap_state := (ap_state g)\<lparr>player_state :=
              (player_state (ap_state g))\<lparr>max_ammo := ma\<rparr>\<rparr>\<rparr>)"
proof -
  from assms obtain s1 where
    loop: "for_each recalc_max_ammo_step (map int [0..<nat (ap_ammo_count g)]) (ap_state g) = Some s1"
    and g1: "g1 = g\<lparr>ap_state := s1\<rparr>"
    by (auto simp: recalc_max_ammo_def upto_count_def split: Option.bind_splits)
  from recalc_max_ammo_loop [OF loop] obtain ma where
    ma: "s1 = (ap_state g)\<lparr>player_state := (player_state (ap_state g))\<lparr>max_ammo := ma\<rparr>\<rparr>"
      "\<forall>i<nat (ap_ammo_count g). ma ! i = derived_max_ammo (ap_state g) i"
    by blast
  then have "max_ammo_derived g1"
    by (simp add: g1 max_ammo_derived_def list_all_iff derived_max_ammo_def)
  with g1 ma(1) show ?thesis by blast
qed

lemma capacity_upgrade_Some:
  assumes "capacity_upgrade i s = Some s1"
  shows "\<exists>cu. s1 = s\<lparr>player_state := (player_state s)\<lparr>capacity_upgrades := cu\<rparr>\<rparr>"
  using assms by (auto simp: capacity_upgrade_def split: Option.bind_splits)

lemma capacity_upgrade_loop:
  assumes "for_each capacity_upgrade is s = Some s1"
  shows "\<exists>cu. s1 = s\<lparr>player_state := (player_state s)\<lparr>capacity_upgrades := cu\<rparr>\<rparr>"
  using assms
proof (induction "is" arbitrary: s)
  case Nil
  then have "s1 = s\<lparr>player_state := (player_state s)\<lparr>capacity_upgrades :=
      capacity_upgrades (player_state s)\<rparr>\<rparr>"
    by simp
  then show ?case by blast
next
  case (Cons i "is")
  from Cons.prems obtain s2 where
    step: "capacity_upgrade i s = Some s2" and rest: "for_each capacity_upgrade is s2 = Some s1"
    by (auto split: option.splits)
  from capacity_upgrade_Some [OF step] Cons.IH [OF rest] show ?case
    by auto
qed

text \<open>The shape of a state after the two capacity steps.\<close>

lemma itemrecv_backpack_Some:
  assumes "itemrecv_backpack item g = Some g1"
  shows "(doom_type item = 8 \<longrightarrow> max_ammo_derived g1)
    \<and> (doom_type item \<noteq> 8 \<longrightarrow> g1 = g)
    \<and> (\<exists>cu ma. g1 = g\<lparr>ap_state := (ap_state g)\<lparr>player_state :=
              (player_state (ap_state g))\<lparr>capacity_upgrades := cu, max_ammo := ma\<rparr>\<rparr>\<rparr>)"
proof (cases "doom_type item = 8")
  case True
  with assms obtain g2 where
    up: "with_state (for_each capacity_upgrade (upto_count (ap_ammo_count g))) g = Some g2"
    and re: "recalc_max_ammo g2 = Some g1"
    by (auto simp: itemrecv_backpack_def split: Option.bind_splits)
  from up obtain cu where "g2 = g\<lparr>ap_state := (ap_state g)\<lparr>player_state :=
              (player_state (ap_state g))\<lparr>capacity_upgrades := cu\<rparr>\<rparr>\<rparr>"
    by (auto simp: with_state_def split: Option.bind_splits dest!: capacity_upgrade_loop)
  with recalc_max_ammo_Some [OF re] True show ?thesis
    by auto
next
  case False
  with assms have "g1 = g"
    by (simp add: itemrecv_backpack_def)
  then have "g1 = g\<lparr>ap_state := (ap_state g)\<lparr>player_state :=
      (player_state (ap_state g))\<lparr>capacity_upgrades := capacity_upgrades (player_state (ap_state g)),
        max_ammo := max_ammo (player_state (ap_state g))\<rparr>\<rparr>\<rparr>"
    by simp
  with False \<open>g1 = g\<close> show ?thesis by blast
qed

lemma itemrecv_ammo_upgrade_Some:
  assumes "itemrecv_ammo_upgrade item g = Some g1"
  shows "(doom_type item \<ge> 65001 \<and> doom_type item \<le> 65006 \<longrightarrow> max_ammo_derived g1)
    \<and> (\<not> (doom_type item \<ge> 65001 \<and> doom_type item \<le> 65006) \<longrightarrow> g1 = g)
    \<and> (\<exists>cu ma. g1 = g\<lparr>ap_state := (ap_state g)\<lparr>player_state :=
              (player_state (ap_state g))\<lparr>capacity_upgrades := cu, max_ammo := ma\<rparr>\<rparr>\<rparr>)"
proof (cases "doom_type item \<ge> 65001 \<and> doom_type item \<le> 65006")
  case True
  with assms obtain g2 where
    up: "(if doom_type item - 65001 < ap_ammo_count g
          then with_state (capacity_upgrade (doom_type item - 65001)) g else Some g) = Some g2"
    and re: "recalc_max_ammo g2 = Some g1"
    by (auto simp: itemrecv_ammo_upgrade_def Let_def split: Option.bind_splits)
  from up obtain cu where "g2 = g\<lparr>ap_state := (ap_state g)\<lparr>player_state :=
              (player_state (ap_state g))\<lparr>capacity_upgrades := cu\<rparr>\<rparr>\<rparr>"
  proof (cases "doom_type item - 65001 < ap_ammo_count g")
    case True
    with up that show ?thesis
      by (auto simp: with_state_def split: Option.bind_splits dest!: capacity_upgrade_Some)
  next
    case False
    with up have "g2 = g\<lparr>ap_state := (ap_state g)\<lparr>player_state :=
        (player_state (ap_state g))\<lparr>capacity_upgrades :=
          capacity_upgrades (player_state (ap_state g))\<rparr>\<rparr>\<rparr>"
      by simp
    with that show ?thesis by blast
  qed
  with recalc_max_ammo_Some [OF re] True show ?thesis
    by auto
next
  case False
  with assms have "g1 = g"
    by (auto simp: itemrecv_ammo_upgrade_def)
  then have "g1 = g\<lparr>ap_state := (ap_state g)\<lparr>player_state :=
      (player_state (ap_state g))\<lparr>capacity_upgrades := capacity_upgrades (player_state (ap_state g)),
        max_ammo := max_ammo (player_state (ap_state g))\<rparr>\<rparr>\<rparr>"
    by simp
  with False \<open>g1 = g\<close> show ?thesis by blast
qed


lemma set_level_state_Some:
  assumes "set_level_state g off ls = Some g1"
  shows "0 \<le> off \<and> nat off < length (level_states (ap_state g))
    \<and> g1 = g\<lparr>ap_state := (ap_state g)\<lparr>level_states :=
              (level_states (ap_state g))[nat off := ls]\<rparr>\<rparr>"
  using assms by (auto simp: set_level_state_def arr_set_def split: option.splits if_splits)

lemma itemrecv_key_Some:
  assumes "itemrecv_key d item off g = Some g1"
  shows "\<exists>lss. g1 = g\<lparr>ap_state := (ap_state g)\<lparr>level_states := lss\<rparr>\<rparr>"
proof (cases "map_of (get_keys_map d) (doom_type item)")
  case None
  with assms have "g1 = g\<lparr>ap_state := (ap_state g)\<lparr>level_states := level_states (ap_state g)\<rparr>\<rparr>"
    by (simp add: itemrecv_key_def)
  then show ?thesis by blast
next
  case (Some k)
  with assms show ?thesis
    by (auto simp: itemrecv_key_def split: Option.bind_splits dest!: set_level_state_Some)
qed

lemma itemrecv_map_Some:
  assumes "itemrecv_map d item off g = Some g1"
  shows "\<exists>lss. g1 = g\<lparr>ap_state := (ap_state g)\<lparr>level_states := lss\<rparr>\<rparr>"
proof (cases "doom_type item = get_map_doom_type d")
  case False
  with assms have "g1 = g\<lparr>ap_state := (ap_state g)\<lparr>level_states := level_states (ap_state g)\<rparr>\<rparr>"
    by (simp add: itemrecv_map_def)
  then show ?thesis by blast
next
  case True
  with assms show ?thesis
    by (auto simp: itemrecv_map_def split: Option.bind_splits dest!: set_level_state_Some)
qed

lemma itemrecv_unlock_Some:
  assumes "itemrecv_unlock item off g = Some g1"
  shows "\<exists>lss. g1 = g\<lparr>ap_state := (ap_state g)\<lparr>level_states := lss\<rparr>\<rparr>"
proof (cases "doom_type item = - 1")
  case False
  with assms have "g1 = g\<lparr>ap_state := (ap_state g)\<lparr>level_states := level_states (ap_state g)\<rparr>\<rparr>"
    by (simp add: itemrecv_unlock_def)
  then show ?thesis by blast
next
  case True
  with assms show ?thesis
    by (auto simp: itemrecv_unlock_def split: Option.bind_splits dest!: set_level_state_Some)
qed

lemma itemrecv_complete_Some:
  assumes "itemrecv_complete item off g = Some g1"
  shows "\<exists>lss. g1 = g\<lparr>ap_state := (ap_state g)\<lparr>level_states := lss\<rparr>\<rparr>"
proof (cases "doom_type item = - 2")
  case False
  with assms have "g1 = g\<lparr>ap_state := (ap_state g)\<lparr>level_states := level_states (ap_state g)\<rparr>\<rparr>"
    by (simp add: itemrecv_complete_def)
  then show ?thesis by blast
next
  case True
  with assms show ?thesis
    by (auto simp: itemrecv_complete_def split: Option.bind_splits dest!: set_level_state_Some)
qed

lemma itemrecv_weapon_Some:
  assumes "itemrecv_weapon d item g = Some g1"
  shows "\<exists>wo. g1 = g\<lparr>ap_state := (ap_state g)\<lparr>player_state :=
            (player_state (ap_state g))\<lparr>weapon_owned := wo\<rparr>\<rparr>\<rparr>"
proof (cases "map_of (get_weapons_map d) (doom_type item)")
  case None
  with assms have "g1 = g\<lparr>ap_state := (ap_state g)\<lparr>player_state :=
      (player_state (ap_state g))\<lparr>weapon_owned := weapon_owned (player_state (ap_state g))\<rparr>\<rparr>\<rparr>"
    by (simp add: itemrecv_weapon_def)
  then show ?thesis by blast
next
  case (Some w)
  with assms show ?thesis
    by (auto simp: itemrecv_weapon_def split: Option.bind_splits)
qed

text \<open>
  The steps of \<open>itemrecv_effects\<close> one after the other, and what the whole sequence
  leaves alone.
\<close>

lemma itemrecv_effects_steps:
  assumes "itemrecv_effects d item g = Some g7"
  obtains g1 g2 g3 g4 g5 g6 where
    "itemrecv_backpack item g = Some g1"
    "itemrecv_ammo_upgrade item g1 = Some g2"
    "itemrecv_key d item
       (ap_get_level_state g \<lparr>idx_ep = item_ep item - 1, idx_map = item_map item - 1\<rparr>) g2 = Some g3"
    "itemrecv_weapon d item g3 = Some g4"
    "itemrecv_map d item
       (ap_get_level_state g \<lparr>idx_ep = item_ep item - 1, idx_map = item_map item - 1\<rparr>) g4 = Some g5"
    "itemrecv_unlock item
       (ap_get_level_state g \<lparr>idx_ep = item_ep item - 1, idx_map = item_map item - 1\<rparr>) g5 = Some g6"
    "itemrecv_complete item
       (ap_get_level_state g \<lparr>idx_ep = item_ep item - 1, idx_map = item_map item - 1\<rparr>) g6 = Some g7"
  using assms by (auto simp: itemrecv_effects_def Let_def split: Option.bind_splits)

lemma max_ammo_derived_frame:
  "max_ammo_derived (g\<lparr>ap_state := (ap_state g)\<lparr>level_states := lss\<rparr>\<rparr>) = max_ammo_derived g"
  "max_ammo_derived (g\<lparr>ap_state := (ap_state g)\<lparr>player_state :=
      (player_state (ap_state g))\<lparr>weapon_owned := wo\<rparr>\<rparr>\<rparr>) = max_ammo_derived g"
  "max_ammo_derived (g\<lparr>ap_item_queue := q\<rparr>) = max_ammo_derived g"
  "max_ammo_derived (g\<lparr>engine_calls := c\<rparr>) = max_ammo_derived g"
  "max_ammo_derived (g\<lparr>ap_notification_icons := n\<rparr>) = max_ammo_derived g"
  by (simp_all add: max_ammo_derived_def derived_max_ammo_def)

lemma frame_trans:
  "g1 = g\<lparr>ap_state := s1\<rparr> \<Longrightarrow> g2 = g1\<lparr>ap_state := s2\<rparr> \<Longrightarrow> g2 = g\<lparr>ap_state := s2\<rparr>"
  by simp

lemma itemrecv_step_frames:
  "itemrecv_backpack item g = Some g1 \<Longrightarrow> \<exists>s. g1 = g\<lparr>ap_state := s\<rparr>"
  "itemrecv_ammo_upgrade item g = Some g1 \<Longrightarrow> \<exists>s. g1 = g\<lparr>ap_state := s\<rparr>"
  "itemrecv_key d item off g = Some g1 \<Longrightarrow> \<exists>s. g1 = g\<lparr>ap_state := s\<rparr>"
  "itemrecv_weapon d item g = Some g1 \<Longrightarrow> \<exists>s. g1 = g\<lparr>ap_state := s\<rparr>"
  "itemrecv_map d item off g = Some g1 \<Longrightarrow> \<exists>s. g1 = g\<lparr>ap_state := s\<rparr>"
  "itemrecv_unlock item off g = Some g1 \<Longrightarrow> \<exists>s. g1 = g\<lparr>ap_state := s\<rparr>"
  "itemrecv_complete item off g = Some g1 \<Longrightarrow> \<exists>s. g1 = g\<lparr>ap_state := s\<rparr>"
  using itemrecv_backpack_Some [of item g g1] itemrecv_ammo_upgrade_Some [of item g g1]
    itemrecv_key_Some [of d item off g g1] itemrecv_weapon_Some [of d item g g1]
    itemrecv_map_Some [of d item off g g1] itemrecv_unlock_Some [of item off g g1]
    itemrecv_complete_Some [of item off g g1]
  by blast+

lemma itemrecv_effects_frame:
  assumes "itemrecv_effects d item g = Some g7"
  shows "\<exists>s. g7 = g\<lparr>ap_state := s\<rparr>"
proof -
  from assms obtain g1 g2 g3 g4 g5 g6 off where
    st: "itemrecv_backpack item g = Some g1"
      "itemrecv_ammo_upgrade item g1 = Some g2"
      "itemrecv_key d item off g2 = Some g3"
      "itemrecv_weapon d item g3 = Some g4"
      "itemrecv_map d item off g4 = Some g5"
      "itemrecv_unlock item off g5 = Some g6"
      "itemrecv_complete item off g6 = Some g7"
    by (rule itemrecv_effects_steps)
  from itemrecv_step_frames(1) [OF st(1)] obtain s1 where "g1 = g\<lparr>ap_state := s1\<rparr>" ..
  moreover
  from itemrecv_step_frames(2) [OF st(2)] obtain s2 where "g2 = g1\<lparr>ap_state := s2\<rparr>" ..
  moreover
  from itemrecv_step_frames(3) [OF st(3)] obtain s3 where "g3 = g2\<lparr>ap_state := s3\<rparr>" ..
  moreover
  from itemrecv_step_frames(4) [OF st(4)] obtain s4 where "g4 = g3\<lparr>ap_state := s4\<rparr>" ..
  moreover
  from itemrecv_step_frames(5) [OF st(5)] obtain s5 where "g5 = g4\<lparr>ap_state := s5\<rparr>" ..
  moreover
  from itemrecv_step_frames(6) [OF st(6)] obtain s6 where "g6 = g5\<lparr>ap_state := s6\<rparr>" ..
  moreover
  from itemrecv_step_frames(7) [OF st(7)] obtain s7 where "g7 = g6\<lparr>ap_state := s7\<rparr>" ..
  ultimately have "g7 = g\<lparr>ap_state := s7\<rparr>"
    by simp
  then show ?thesis ..
qed

lemma itemrecv_level_steps_derived:
  "itemrecv_key d item off g = Some g1 \<Longrightarrow> max_ammo_derived g1 = max_ammo_derived g"
  "itemrecv_weapon d item g = Some g1 \<Longrightarrow> max_ammo_derived g1 = max_ammo_derived g"
  "itemrecv_map d item off g = Some g1 \<Longrightarrow> max_ammo_derived g1 = max_ammo_derived g"
  "itemrecv_unlock item off g = Some g1 \<Longrightarrow> max_ammo_derived g1 = max_ammo_derived g"
  "itemrecv_complete item off g = Some g1 \<Longrightarrow> max_ammo_derived g1 = max_ammo_derived g"
  using itemrecv_key_Some [of d item off g g1] itemrecv_weapon_Some [of d item g g1]
    itemrecv_map_Some [of d item off g g1] itemrecv_unlock_Some [of item off g g1]
    itemrecv_complete_Some [of item off g g1]
  by (auto simp: max_ammo_derived_frame)

lemma itemrecv_effects_derived:
  assumes run: "itemrecv_effects d item g = Some g7"
    and pre: "is_capacity_item item \<or> max_ammo_derived g"
  shows "max_ammo_derived g7"
proof -
  from run obtain g1 g2 where
    s1: "itemrecv_backpack item g = Some g1"
    and s2: "itemrecv_ammo_upgrade item g1 = Some g2"
    and rest: "max_ammo_derived g7 = max_ammo_derived g2"
    by (elim itemrecv_effects_steps) (simp add: itemrecv_level_steps_derived)
  have "max_ammo_derived g2"
  proof (cases "doom_type item \<ge> 65001 \<and> doom_type item \<le> 65006")
    case True
    with itemrecv_ammo_upgrade_Some [OF s2] show ?thesis by blast
  next
    case False
    with itemrecv_ammo_upgrade_Some [OF s2] have "g2 = g1" by blast
    moreover have "max_ammo_derived g1"
    proof (cases "doom_type item = 8")
      case True
      with itemrecv_backpack_Some [OF s1] show ?thesis by blast
    next
      case False
      with itemrecv_backpack_Some [OF s1] have "g1 = g" by blast
      with pre False \<open>\<not> (doom_type item \<ge> 65001 \<and> doom_type item \<le> 65006)\<close>
      show ?thesis by (auto simp: is_capacity_item_def)
    qed
    ultimately show ?thesis by simp
  qed
  with rest show ?thesis by simp
qed

lemma process_received_item_Some:
  assumes "process_received_item d item_id g = Some g1"
  shows "\<exists>icons. g1 = g\<lparr>engine_calls := engine_calls g @ give_item_calls d item_id,
                        ap_notification_icons := ap_notification_icons g @ icons\<rparr>"
proof (cases "map_of (get_item_type_table d) item_id")
  case None
  with assms have "g1 = g\<lparr>engine_calls := engine_calls g @ give_item_calls d item_id,
                        ap_notification_icons := ap_notification_icons g @ []\<rparr>"
    by (simp add: process_received_item_def give_item_calls_def)
  then show ?thesis ..
next
  case (Some item)
  show ?thesis
  proof (cases "map_of (get_sprites d) (doom_type item)")
    case None
    with Some assms have "g1 = g\<lparr>engine_calls := engine_calls g @ give_item_calls d item_id,
                        ap_notification_icons := ap_notification_icons g @ []\<rparr>"
      by (auto simp: process_received_item_def give_item_calls_def Let_def
          split: Option.bind_splits)
    then show ?thesis ..
  next
    case (Some sprite_name)
    with \<open>map_of (get_item_type_table d) item_id = Some item\<close> assms show ?thesis
      by (auto simp: process_received_item_def give_item_calls_def Let_def
          split: Option.bind_splits)
  qed
qed

lemma f_itemrecv_derived:
  assumes run: "f_itemrecv d item_id p n g = Some g1"
    and pre: "max_ammo_derived g
      \<or> (case map_of (get_item_type_table d) item_id of
           None \<Rightarrow> False | Some item \<Rightarrow> is_capacity_item item)"
  shows "max_ammo_derived g1"
proof (cases "map_of (get_item_type_table d) item_id")
  case None
  with run pre show ?thesis by (simp add: f_itemrecv_def)
next
  case (Some item)
  with run obtain g7 where
    eff: "itemrecv_effects d item g = Some g7"
    and tail: "g1 = g7 \<or> g1 = g7\<lparr>ap_item_queue := ap_item_queue g7 @ [item_id]\<rparr>
       \<or> process_received_item d item_id g7 = Some g1"
    by (auto simp: f_itemrecv_def split: Option.bind_splits if_splits)
  from pre Some have "is_capacity_item item \<or> max_ammo_derived g" by auto
  from itemrecv_effects_derived [OF eff this] have "max_ammo_derived g7" .
  with tail show ?thesis
    by (auto simp: max_ammo_derived_frame dest!: process_received_item_Some)
qed

section \<open>The maximum ammunition is derived\<close>

lemma f_itemrecv_seq_derived:
  assumes "f_itemrecv_seq d evs g = Some g1"
    and "max_ammo_derived g
      \<or> list_ex (\<lambda>ev. case map_of (get_item_type_table d) (fst ev) of
                        None \<Rightarrow> False | Some item \<Rightarrow> is_capacity_item item) evs"
  shows "max_ammo_derived g1"
  using assms
proof (induction evs arbitrary: g)
  case Nil
  then show ?case by simp
next
  case (Cons ev evs)
  from Cons.prems(1) obtain g2 where
    step: "f_itemrecv d (fst ev) (fst (snd ev)) (snd (snd ev)) g = Some g2"
    and rest: "f_itemrecv_seq d evs g2 = Some g1"
    by (auto split: Option.bind_splits)
  show ?case
  proof (cases "max_ammo_derived g
      \<or> (case map_of (get_item_type_table d) (fst ev) of
           None \<Rightarrow> False | Some item \<Rightarrow> is_capacity_item item)")
    case True
    from f_itemrecv_derived [OF step True] have "max_ammo_derived g2" .
    with Cons.IH [OF rest] show ?thesis by simp
  next
    case False
    with Cons.prems(2) have "list_ex (\<lambda>ev. case map_of (get_item_type_table d) (fst ev) of
                        None \<Rightarrow> False | Some item \<Rightarrow> is_capacity_item item) evs"
      by simp
    with Cons.IH [OF rest] show ?thesis by simp
  qed
qed

section \<open>The item queue is drained in the order of arrival\<close>

lemma process_received_item_queue:
  "process_received_item d item_id (g\<lparr>ap_item_queue := q\<rparr>) =
     map_option (\<lambda>g1. g1\<lparr>ap_item_queue := q\<rparr>) (process_received_item d item_id g)"
  by (auto simp: process_received_item_def Let_def split: option.splits Option.bind_splits)

lemma drain_item_queue_for_each:
  "ap_item_queue g = q \<Longrightarrow>
   drain_item_queue d g = for_each (process_received_item d) q (g\<lparr>ap_item_queue := []\<rparr>)"
proof (induction q arbitrary: g)
  case Nil
  then have "g\<lparr>ap_item_queue := []\<rparr> = g"
    by simp
  with Nil show ?case
    by (subst drain_item_queue.simps) simp
next
  case (Cons item_id rest)
  show ?case
  proof (cases "process_received_item d item_id (g\<lparr>ap_item_queue := []\<rparr>)")
    case None
    then have "process_received_item d item_id (g\<lparr>ap_item_queue := rest\<rparr>) = None"
      using process_received_item_queue [where d = d and item_id = item_id and g = "g\<lparr>ap_item_queue := []\<rparr>" and q = rest]
      by simp
    with None Cons.prems show ?thesis
      by (subst drain_item_queue.simps) simp
  next
    case (Some g1)
    then have q1: "ap_item_queue g1 = []"
      by (auto dest!: process_received_item_Some)
    from Some have step: "process_received_item d item_id (g\<lparr>ap_item_queue := rest\<rparr>)
        = Some (g1\<lparr>ap_item_queue := rest\<rparr>)"
      using process_received_item_queue [where d = d and item_id = item_id and g = "g\<lparr>ap_item_queue := []\<rparr>" and q = rest]
      by simp
    have "drain_item_queue d (g1\<lparr>ap_item_queue := rest\<rparr>)
        = for_each (process_received_item d) rest (g1\<lparr>ap_item_queue := rest, ap_item_queue := []\<rparr>)"
      by (rule Cons.IH) simp
    also have "g1\<lparr>ap_item_queue := rest, ap_item_queue := []\<rparr> = g1"
      using q1 by simp
    finally show ?thesis
      using Some step Cons.prems by (subst drain_item_queue.simps) simp
  qed
qed

lemma for_each_process_calls:
  assumes "for_each (process_received_item d) q g = Some g1"
  shows "engine_calls g1 = engine_calls g @ concat (map (give_item_calls d) q)
    \<and> ap_item_queue g1 = ap_item_queue g \<and> ap_state g1 = ap_state g"
  using assms
proof (induction q arbitrary: g)
  case Nil
  then show ?case by simp
next
  case (Cons item_id rest)
  from Cons.prems obtain g2 where
    step: "process_received_item d item_id g = Some g2"
    and loop: "for_each (process_received_item d) rest g2 = Some g1"
    by (auto split: option.splits)
  from process_received_item_Some [OF step] Cons.IH [OF loop] show ?case
    by auto
qed

lemma f_itemrecv_outside_game:
  assumes "ap_is_in_game g = 0"
    and "f_itemrecv d item_id p n g = Some g1"
  shows "ap_item_queue g1 = ap_item_queue g @ queued_ids d [(item_id, p, n)]
    \<and> engine_calls g1 = engine_calls g
    \<and> ap_notification_icons g1 = ap_notification_icons g
    \<and> ap_is_in_game g1 = 0"
proof (cases "map_of (get_item_type_table d) item_id")
  case None
  with assms show ?thesis
    by (simp add: f_itemrecv_def queued_ids_def)
next
  case (Some item)
  with assms(2) obtain g7 where
    eff: "itemrecv_effects d item g = Some g7"
    and tail: "(if \<not> n then Some g7
          else if ap_is_in_game g7 = 0
          then Some (g7\<lparr>ap_item_queue := ap_item_queue g7 @ [item_id]\<rparr>)
          else process_received_item d item_id g7) = Some g1"
    by (auto simp: f_itemrecv_def split: Option.bind_splits)
  from itemrecv_effects_frame [OF eff] obtain s where "g7 = g\<lparr>ap_state := s\<rparr>" ..
  with tail assms(1) Some show ?thesis
    by (auto simp: queued_ids_def split: if_splits)
qed

lemma f_itemrecv_seq_outside_game:
  assumes "ap_is_in_game g = 0"
    and "f_itemrecv_seq d evs g = Some g1"
  shows "ap_item_queue g1 = ap_item_queue g @ queued_ids d evs
    \<and> engine_calls g1 = engine_calls g
    \<and> ap_notification_icons g1 = ap_notification_icons g
    \<and> ap_is_in_game g1 = 0"
  using assms
proof (induction evs arbitrary: g)
  case Nil
  then show ?case by (simp add: queued_ids_def)
next
  case (Cons ev evs)
  from Cons.prems(2) obtain g2 where
    step: "f_itemrecv d (fst ev) (fst (snd ev)) (snd (snd ev)) g = Some g2"
    and rest: "f_itemrecv_seq d evs g2 = Some g1"
    by (auto split: Option.bind_splits)
  from f_itemrecv_outside_game [OF Cons.prems(1) step]
  have g2: "ap_item_queue g2 = ap_item_queue g @ queued_ids d [ev]"
    "engine_calls g2 = engine_calls g" "ap_notification_icons g2 = ap_notification_icons g"
    "ap_is_in_game g2 = 0"
    by simp_all
  have "queued_ids d (ev # evs) = queued_ids d [ev] @ queued_ids d evs"
    by (simp add: queued_ids_def)
  with Cons.IH [OF g2(4) rest] g2 show ?case
    by simp
qed

text \<open>
  C4.  Item-received events arrive while the player is not in the game; then the
  game becomes active and \<^verbatim>\<open>apdoom_update\<close> runs.  The events with the notify
  flag and an id of the item table have been appended to the queue in their order of
  arrival; the update processes the ids of the queue one after the other from the
  front, each once (the result is the left-to-right loop of
  \<^verbatim>\<open>process_received_item\<close> over the queue), leaves the queue empty, and the
  give-item callback has been called for them in that order.
\<close>

theorem item_queue_drained_in_order:
  assumes "ap_is_in_game g = 0"
    and "f_itemrecv_seq d evs g = Some g1"
    and "in_game \<noteq> 0"
    and "apdoom_update_item_queue d (g1\<lparr>ap_is_in_game := in_game\<rparr>) = Some g2"
  shows "ap_item_queue g1 = ap_item_queue g @ queued_ids d evs
    \<and> for_each (process_received_item d) (ap_item_queue g1)
         (g1\<lparr>ap_is_in_game := in_game, ap_item_queue := []\<rparr>) = Some g2
    \<and> ap_item_queue g2 = []
    \<and> engine_calls g2 =
        engine_calls g @ concat (map (give_item_calls d) (ap_item_queue g @ queued_ids d evs))"
proof -
  from f_itemrecv_seq_outside_game [OF assms(1,2)]
  have q: "ap_item_queue g1 = ap_item_queue g @ queued_ids d evs"
    and c: "engine_calls g1 = engine_calls g"
    by simp_all
  from assms(3,4) have "drain_item_queue d (g1\<lparr>ap_is_in_game := in_game\<rparr>) = Some g2"
    by (simp add: apdoom_update_item_queue_def)
  then have loop: "for_each (process_received_item d) (ap_item_queue g1)
         (g1\<lparr>ap_is_in_game := in_game, ap_item_queue := []\<rparr>) = Some g2"
    using drain_item_queue_for_each [where g = "g1\<lparr>ap_is_in_game := in_game\<rparr>" and q = "ap_item_queue g1" and d = d]
    by simp
  from for_each_process_calls [OF loop] q c loop show ?thesis
    by simp
qed

text \<open>
  Five events in the small game, one with an unknown id and one without the notify
  flag: three ids are queued and given in the order of arrival.
\<close>

theorem item_queue_drained_in_order_witness:
  "(case f_itemrecv_seq demo_defs
      [(100, 0, True), (999, 0, True), (102, 0, True), (101, 0, False), (100, 0, True)]
      demo_fresh of
      None \<Rightarrow> False
    | Some g1 \<Rightarrow> ap_item_queue g1 = [100, 102, 100]
        \<and> (case apdoom_update_item_queue demo_defs (g1\<lparr>ap_is_in_game := 1\<rparr>) of
             None \<Rightarrow> False
           | Some g2 \<Rightarrow> ap_item_queue g2 = []
               \<and> engine_calls g2 = [GiveItem (- 1) 1 2, GiveItem 5 1 1, GiveItem (- 1) 1 2]))"
proof -
  have "map_option (\<lambda>g1. map_option ap_item_queue
          (apdoom_update_item_queue demo_defs (g1\<lparr>ap_is_in_game := 1\<rparr>)))
      (f_itemrecv_seq demo_defs
        [(100, 0, True), (999, 0, True), (102, 0, True), (101, 0, False), (100, 0, True)]
        demo_fresh) = Some (Some [])"
    by code_simp
  then obtain g1 g2 where
    run: "f_itemrecv_seq demo_defs
        [(100, 0, True), (999, 0, True), (102, 0, True), (101, 0, False), (100, 0, True)]
        demo_fresh = Some g1"
    and upd: "apdoom_update_item_queue demo_defs (g1\<lparr>ap_is_in_game := 1\<rparr>) = Some g2"
    by auto
  have out: "ap_is_in_game demo_fresh = 0" and one: "(1::int) \<noteq> 0"
    by code_simp+
  have pre: "ap_item_queue demo_fresh = []" "engine_calls demo_fresh = []"
    by code_simp+
  have ids: "queued_ids demo_defs
      [(100, 0, True), (999, 0, True), (102, 0, True), (101, 0, False), (100, 0, True)]
      = [100, 102, 100]"
    by code_simp
  have calls: "concat (map (give_item_calls demo_defs) [100, 102, 100])
      = [GiveItem (- 1) 1 2, GiveItem 5 1 1, GiveItem (- 1) 1 2]"
    by code_simp
  from item_queue_drained_in_order [OF out run one upd] pre ids calls
  have "ap_item_queue g1 = [100, 102, 100] \<and> ap_item_queue g2 = []
      \<and> engine_calls g2 = [GiveItem (- 1) 1 2, GiveItem 5 1 1, GiveItem (- 1) 1 2]"
    by simp
  with run upd show ?thesis by simp
qed

section \<open>An item received outside the game\<close>








section \<open>Receiving the same item again\<close>

lemma itemrecv_steps_level_step:
  "itemrecv_key d item off g =
     level_step (map_of (get_keys_map d) (doom_type item) \<noteq> None)
       (\<lambda>ls. 0 \<le> key_index d item \<and> nat (key_index d item) < length (keys ls))
       (\<lambda>ls. ls\<lparr>keys := (keys ls)[nat (key_index d item) := 1]\<rparr>) off g"
  "itemrecv_map d item off g =
     level_step (doom_type item = get_map_doom_type d) (\<lambda>ls. True) (\<lambda>ls. ls\<lparr>has_map := 1\<rparr>) off g"
  "itemrecv_unlock item off g =
     level_step (doom_type item = - 1) (\<lambda>ls. True) (\<lambda>ls. ls\<lparr>unlocked := 1\<rparr>) off g"
  "itemrecv_complete item off g =
     level_step (doom_type item = - 2) (\<lambda>ls. True) (\<lambda>ls. ls\<lparr>completed := 1\<rparr>) off g"
  by (auto simp: itemrecv_key_def itemrecv_map_def itemrecv_unlock_def itemrecv_complete_def
      level_step_def key_index_def arr_set_def split: option.splits)

lemma level_step_Some:
  assumes "level_step c ok upd off g = Some g1"
  shows "(\<not> c \<longrightarrow> g1 = g)
    \<and> (c \<longrightarrow> 0 \<le> off \<and> nat off < length (level_states (ap_state g))
          \<and> ok (level_states (ap_state g) ! nat off)
          \<and> g1 = g\<lparr>ap_state := (ap_state g)\<lparr>level_states := (level_states (ap_state g))
                  [nat off := upd (level_states (ap_state g) ! nat off)]\<rparr>\<rparr>)"
  using assms
  by (auto simp: level_step_def level_state_at_def arr_get_def
      split: option.splits if_splits dest!: set_level_state_Some)

lemma level_step_done_fixed:
  assumes "level_step_done c ok upd off g"
  shows "level_step c ok upd off g = Some g"
  using assms
  by (auto simp: level_step_done_def level_step_def level_state_at_def arr_get_def
      set_level_state_def arr_set_def)

lemma level_step_done_self:
  assumes "level_step c ok upd off g = Some g1"
    and "\<And>ls. upd (upd ls) = upd ls" and "\<And>ls. ok ls \<Longrightarrow> ok (upd ls)"
  shows "level_step_done c ok upd off g1"
  using level_step_Some [OF assms(1)] assms(2,3)
  by (auto simp: level_step_done_def)

lemma level_step_done_kept:
  assumes "level_step_done c ok upd off g"
    and "level_step c' ok' upd' off g = Some g1"
    and "\<And>ls. upd (upd' ls) = upd' (upd ls)" and "\<And>ls. ok (upd' ls) = ok ls"
  shows "level_step_done c ok upd off g1"
  using level_step_Some [OF assms(2)] assms(1,3,4)
  by (cases c'; cases c) (auto simp: level_step_done_def)

lemma level_step_done_weapon:
  assumes "itemrecv_weapon d item g = Some g1"
  shows "level_step_done c ok upd off g1 = level_step_done c ok upd off g"
  using itemrecv_weapon_Some [OF assms] by (auto simp: level_step_done_def)

lemma weapon_done_fixed:
  assumes "weapon_done d item g"
  shows "itemrecv_weapon d item g = Some g"
  using assms
  by (auto simp: weapon_done_def itemrecv_weapon_def arr_get_def arr_set_def
      list_update_same_conv split: option.splits if_splits)

lemma weapon_done_self:
  assumes "itemrecv_weapon d item g = Some g1"
  shows "weapon_done d item g1"
  using assms
  by (auto simp: weapon_done_def itemrecv_weapon_def arr_get_def arr_set_def
      split: option.splits if_splits Option.bind_splits)

lemma weapon_done_kept:
  assumes "level_step c ok upd off g = Some g1"
  shows "weapon_done d item g1 = weapon_done d item g"
  using level_step_Some [OF assms] by (cases c) (auto simp: weapon_done_def split: option.splits)

lemma itemrecv_capacity_skipped:
  assumes "\<not> is_capacity_item item"
  shows "itemrecv_backpack item g = Some g" and "itemrecv_ammo_upgrade item g = Some g"
  using assms by (auto simp: is_capacity_item_def itemrecv_backpack_def itemrecv_ammo_upgrade_def)


lemma done_same_state:
  assumes "ap_state g' = ap_state g"
  shows "level_step_done c ok upd off g' = level_step_done c ok upd off g"
    and "weapon_done d item g' = weapon_done d item g"
  using assms by (simp_all add: level_step_done_def weapon_done_def cong: option.case_cong)

text \<open>
  Once the effects of an item that is no capacity upgrade are applied, applying them
  again changes nothing.
\<close>

lemma itemrecv_effects_fixed:
  assumes eff: "itemrecv_effects d item g = Some g7"
    and nc: "\<not> is_capacity_item item"
    and same: "ap_state g' = ap_state g7" "max_map_count g' = max_map_count g"
  shows "itemrecv_effects d item g' = Some g'"
proof -
  define off where
    "off = ap_get_level_state g \<lparr>idx_ep = item_ep item - 1, idx_map = item_map item - 1\<rparr>"
  define ck where "ck = (map_of (get_keys_map d) (doom_type item) \<noteq> None)"
  define okk where
    "okk = (\<lambda>ls :: ap_level_state_t.
        0 \<le> key_index d item \<and> nat (key_index d item) < length (keys ls))"
  define uk where
    "uk = (\<lambda>ls :: ap_level_state_t. ls\<lparr>keys := (keys ls)[nat (key_index d item) := 1]\<rparr>)"
  define cm where "cm = (doom_type item = get_map_doom_type d)"
  define um where "um = (\<lambda>ls :: ap_level_state_t. ls\<lparr>has_map := 1\<rparr>)"
  define cu where "cu = (doom_type item = - 1)"
  define uu where "uu = (\<lambda>ls :: ap_level_state_t. ls\<lparr>unlocked := 1\<rparr>)"
  define cc where "cc = (doom_type item = - 2)"
  define uc where "uc = (\<lambda>ls :: ap_level_state_t. ls\<lparr>completed := 1\<rparr>)"
  define tt where "tt = (\<lambda>ls :: ap_level_state_t. True)"
  note defs = ck_def okk_def uk_def cm_def um_def cu_def uu_def cc_def uc_def tt_def
  from eff obtain g1 g2 g3 g4 g5 g6 where
    "itemrecv_backpack item g = Some g1" "itemrecv_ammo_upgrade item g1 = Some g2"
    and st: "itemrecv_key d item off g2 = Some g3" "itemrecv_weapon d item g3 = Some g4"
      "itemrecv_map d item off g4 = Some g5" "itemrecv_unlock item off g5 = Some g6"
      "itemrecv_complete item off g6 = Some g7"
    unfolding off_def by (rule itemrecv_effects_steps)
  with itemrecv_capacity_skipped [OF nc] have "g2 = g" by simp
  have sk: "level_step ck okk uk off g = Some g3"
    and sw: "itemrecv_weapon d item g3 = Some g4"
    and sm: "level_step cm tt um off g4 = Some g5"
    and su: "level_step cu tt uu off g5 = Some g6"
    and sc: "level_step cc tt uc off g6 = Some g7"
    using st \<open>g2 = g\<close> by (simp_all add: itemrecv_steps_level_step defs)
  have "level_step_done ck okk uk off g3"
    by (rule level_step_done_self [OF sk]) (simp_all add: defs)
  then have "level_step_done ck okk uk off g4"
    by (simp add: level_step_done_weapon [OF sw])
  then have "level_step_done ck okk uk off g5"
    by (rule level_step_done_kept [OF _ sm]) (simp_all add: defs)
  then have "level_step_done ck okk uk off g6"
    by (rule level_step_done_kept [OF _ su]) (simp_all add: defs)
  then have dk: "level_step_done ck okk uk off g7"
    by (rule level_step_done_kept [OF _ sc]) (simp_all add: defs)
  have "weapon_done d item g4"
    by (rule weapon_done_self [OF sw])
  then have dw: "weapon_done d item g7"
    by (simp add: weapon_done_kept [OF sm] weapon_done_kept [OF su] weapon_done_kept [OF sc])
  have "level_step_done cm tt um off g5"
    by (rule level_step_done_self [OF sm]) (simp_all add: defs)
  then have "level_step_done cm tt um off g6"
    by (rule level_step_done_kept [OF _ su]) (simp_all add: defs)
  then have dm: "level_step_done cm tt um off g7"
    by (rule level_step_done_kept [OF _ sc]) (simp_all add: defs)
  have "level_step_done cu tt uu off g6"
    by (rule level_step_done_self [OF su]) (simp_all add: defs)
  then have du: "level_step_done cu tt uu off g7"
    by (rule level_step_done_kept [OF _ sc]) (simp_all add: defs)
  have dc: "level_step_done cc tt uc off g7"
    by (rule level_step_done_self [OF sc]) (simp_all add: defs)
  have off': "ap_get_level_state g' \<lparr>idx_ep = item_ep item - 1, idx_map = item_map item - 1\<rparr> = off"
    using same(2) by (simp add: off_def ap_get_level_state_def)
  from dk dm du dc dw
  have "level_step_done ck okk uk off g'" "level_step_done cm tt um off g'"
    "level_step_done cu tt uu off g'" "level_step_done cc tt uc off g'" "weapon_done d item g'"
    by (simp_all add: done_same_state [OF same(1)])
  then have fixed: "level_step ck okk uk off g' = Some g'" "level_step cm tt um off g' = Some g'"
    "level_step cu tt uu off g' = Some g'" "level_step cc tt uc off g' = Some g'"
    "itemrecv_weapon d item g' = Some g'"
    by (simp_all add: level_step_done_fixed weapon_done_fixed)
  have "itemrecv_key d item off g' = Some g'" "itemrecv_weapon d item g' = Some g'"
    "itemrecv_map d item off g' = Some g'" "itemrecv_unlock item off g' = Some g'"
    "itemrecv_complete item off g' = Some g'"
    using fixed [unfolded defs] by (simp_all add: itemrecv_steps_level_step)
  with itemrecv_capacity_skipped [OF nc] off' show ?thesis
    by (simp add: itemrecv_effects_def)
qed


text \<open>Whether \<^verbatim>\<open>process_received_item\<close> returns depends on the item only.\<close>

lemma process_received_item_again:
  assumes "process_received_item d item_id g = Some g1"
  shows "\<exists>g2. process_received_item d item_id g' = Some g2"
  using assms
  by (auto simp: process_received_item_def Let_def split: option.splits Option.bind_splits if_splits)

text \<open>
  C7, as the code has it.  \<^verbatim>\<open>f_itemrecv\<close> detects no duplicate.  For an item of
  the table that is no capacity upgrade, a second delivery of the same event leaves
  the session state as the first left it (the key, weapon, map, unlock and completion
  flags are set to 1 again) and returns as the first did: without the notify flag
  the whole state is unchanged; with the flag, which the first delivery carried too,
  the id is queued once more outside the game, or given to the player once more in
  the game.
\<close>

theorem item_redelivery_keeps_session_state:
  assumes first: "f_itemrecv d item_id p n g = Some g1"
    and item: "map_of (get_item_type_table d) item_id = Some item"
    and nc: "\<not> is_capacity_item item"
  shows "f_itemrecv d item_id p' False g1 = Some g1
    \<and> (n \<longrightarrow> (\<exists>g2. f_itemrecv d item_id p' True g1 = Some g2))
    \<and> (f_itemrecv d item_id p' True g1 = Some g2 \<longrightarrow>
         ap_state g2 = ap_state g1
         \<and> (if ap_is_in_game g1 = 0
             then g2 = g1\<lparr>ap_item_queue := ap_item_queue g1 @ [item_id]\<rparr>
             else process_received_item d item_id g1 = Some g2))"
proof -
  from first item obtain g7 where
    eff: "itemrecv_effects d item g = Some g7"
    and tail: "g1 = g7 \<or> g1 = g7\<lparr>ap_item_queue := ap_item_queue g7 @ [item_id]\<rparr>
       \<or> process_received_item d item_id g7 = Some g1"
    and flagged: "n \<Longrightarrow> ap_is_in_game g7 \<noteq> 0 \<Longrightarrow> process_received_item d item_id g7 = Some g1"
    by (auto simp: f_itemrecv_def split: Option.bind_splits if_splits)
  from itemrecv_effects_frame [OF eff] obtain s where g7: "g7 = g\<lparr>ap_state := s\<rparr>" ..
  from tail have "ap_state g1 = ap_state g7 \<and> max_map_count g1 = max_map_count g7
      \<and> ap_is_in_game g1 = ap_is_in_game g7"
    by (auto dest!: process_received_item_Some)
  with g7 have same: "ap_state g1 = ap_state g7" "max_map_count g1 = max_map_count g"
    and game: "ap_is_in_game g1 = ap_is_in_game g7"
    by simp_all
  from itemrecv_effects_fixed [OF eff nc same]
  have again: "itemrecv_effects d item g1 = Some g1" .
  then have silent: "f_itemrecv d item_id p' False g1 = Some g1"
    using item by (simp add: f_itemrecv_def)
  have returns: "\<exists>g2. f_itemrecv d item_id p' True g1 = Some g2" if n
  proof (cases "ap_is_in_game g1 = 0")
    case True
    with again item show ?thesis by (simp add: f_itemrecv_def)
  next
    case False
    with flagged [OF that] game have "process_received_item d item_id g7 = Some g1"
      by simp
    from process_received_item_again [OF this] obtain g2 where
      "process_received_item d item_id g1 = Some g2" ..
    with False again item show ?thesis by (simp add: f_itemrecv_def)
  qed
  have "ap_state g2 = ap_state g1
         \<and> (if ap_is_in_game g1 = 0
             then g2 = g1\<lparr>ap_item_queue := ap_item_queue g1 @ [item_id]\<rparr>
             else process_received_item d item_id g1 = Some g2)"
    if "f_itemrecv d item_id p' True g1 = Some g2"
    using that again item
    by (auto simp: f_itemrecv_def split: if_splits dest!: process_received_item_Some)
  with silent returns show ?thesis by blast
qed

text \<open>
  The blue keycard of the first map arrives twice in the small game with the notify
  flag, outside the game and in the game: the key is set once; the second delivery
  returns and changes the queue only, or the callback log and the icons only.
\<close>

theorem item_redelivery_keeps_session_state_witness:
  "(case f_itemrecv demo_defs 102 0 True demo_fresh of
      None \<Rightarrow> False
    | Some g1 \<Rightarrow>
        map_option keys (level_state_at g1 0) = Some [1, 0, 0]
        \<and> f_itemrecv demo_defs 102 0 False g1 = Some g1
        \<and> (case f_itemrecv demo_defs 102 0 True g1 of
             None \<Rightarrow> False
           | Some g2 \<Rightarrow> ap_state g2 = ap_state g1 \<and> ap_item_queue g2 = [102, 102]))
   \<and> (case f_itemrecv demo_defs 102 0 True (demo_fresh\<lparr>ap_is_in_game := 1\<rparr>) of
      None \<Rightarrow> False
    | Some h1 \<Rightarrow>
        (case f_itemrecv demo_defs 102 0 True h1 of
           None \<Rightarrow> False
         | Some h2 \<Rightarrow> ap_state h2 = ap_state h1 \<and> ap_item_queue h2 = []
             \<and> engine_calls h2 = [GiveItem 5 1 1, GiveItem 5 1 1]))"
proof -
  have item: "map_of (get_item_type_table demo_defs) 102
      = Some \<lparr>doom_type = 5, item_ep = 1, item_map = 1\<rparr>"
    by code_simp
  have nc: "\<not> is_capacity_item \<lparr>doom_type = 5, item_ep = 1, item_map = 1\<rparr>"
    by code_simp
  have "map_option (\<lambda>g1. (map_option keys (level_state_at g1 0), ap_item_queue g1,
            ap_is_in_game g1))
      (f_itemrecv demo_defs 102 0 True demo_fresh) = Some (Some [1, 0, 0], [102], 0)"
    by code_simp
  then obtain g1 where
    first: "f_itemrecv demo_defs 102 0 True demo_fresh = Some g1"
    and vals: "map_option keys (level_state_at g1 0) = Some [1, 0, 0]"
      "ap_item_queue g1 = [102]" "ap_is_in_game g1 = 0"
    by auto
  from item_redelivery_keeps_session_state [OF first item nc, where p' = 0]
  obtain g2 where second: "f_itemrecv demo_defs 102 0 True g1 = Some g2"
    by blast
  from item_redelivery_keeps_session_state [OF first item nc, where p' = 0 and ?g2.0 = g2]
    second vals
  have outside: "f_itemrecv demo_defs 102 0 False g1 = Some g1
      \<and> ap_state g2 = ap_state g1 \<and> ap_item_queue g2 = [102, 102]"
    by simp
  have "map_option (\<lambda>h1. (ap_item_queue h1, ap_is_in_game h1, engine_calls h1,
            give_item_calls demo_defs 102))
      (f_itemrecv demo_defs 102 0 True (demo_fresh\<lparr>ap_is_in_game := 1\<rparr>))
        = Some ([], 1, [GiveItem 5 1 1], [GiveItem 5 1 1])"
    by code_simp
  then obtain h1 where
    hfirst: "f_itemrecv demo_defs 102 0 True (demo_fresh\<lparr>ap_is_in_game := 1\<rparr>) = Some h1"
    and hvals: "ap_item_queue h1 = []" "ap_is_in_game h1 = 1" "engine_calls h1 = [GiveItem 5 1 1]"
      "give_item_calls demo_defs 102 = [GiveItem 5 1 1]"
    by auto
  from item_redelivery_keeps_session_state [OF hfirst item nc, where p' = 0]
  obtain h2 where hsecond: "f_itemrecv demo_defs 102 0 True h1 = Some h2"
    by blast
  from item_redelivery_keeps_session_state [OF hfirst item nc, where p' = 0 and ?g2.0 = h2]
    hsecond hvals
  have "ap_state h2 = ap_state h1" "process_received_item demo_defs 102 h1 = Some h2"
    by simp_all
  with process_received_item_Some [of demo_defs 102 h1 h2] hvals
  have inside: "ap_state h2 = ap_state h1 \<and> ap_item_queue h2 = []
      \<and> engine_calls h2 = [GiveItem 5 1 1, GiveItem 5 1 1]"
    by auto
  from outside inside show ?thesis
    by (simp add: first second vals hfirst hsecond)
qed

text \<open>
  The claim as the specification words it fails for a capacity upgrade: a backpack
  delivered twice counts twice, and the maxima follow.
\<close>

theorem backpack_redelivery_counterexample:
  "map_option (\<lambda>g1. (capacity_upgrades (player_state (ap_state g1)),
                      max_ammo (player_state (ap_state g1))))
     (f_itemrecv_seq demo_defs [(101, 0, False)] demo_fresh)
     = Some ([1, 1, 1, 1], [400, 100, 600, 100])
   \<and> map_option (\<lambda>g1. (capacity_upgrades (player_state (ap_state g1)),
                      max_ammo (player_state (ap_state g1))))
     (f_itemrecv_seq demo_defs [(101, 0, False), (101, 0, False)] demo_fresh)
     = Some ([2, 2, 2, 2], [600, 150, 900, 150])"
  by code_simp

section \<open>Loops over the levels\<close>

lemma for_each_pairs:
  "for_each (\<lambda>lv. body (fst lv) (snd lv)) (map (Pair x) ys) s = for_each (body x) ys s"
  by (induction ys arbitrary: s) (auto split: option.splits)

lemma for_each_nested:
  "for_each (\<lambda>x. for_each (body x) (f x)) xs s =
     for_each (\<lambda>lv. body (fst lv) (snd lv)) (concat (map (\<lambda>x. map (Pair x) (f x)) xs)) s"
  by (induction xs arbitrary: s) (auto simp: for_each_append for_each_pairs split: option.splits)

lemma level_fields_changed_refl:
  assumes "\<And>a. R a a"
  shows "level_fields_changed R g g"
proof -
  have "g = g\<lparr>rand_calls := rand_calls g,
      ap_state := (ap_state g)\<lparr>level_states := level_states (ap_state g)\<rparr>\<rparr>"
    by simp
  moreover have "list_all2 R (level_states (ap_state g)) (level_states (ap_state g))"
    using assms by (simp add: list_all2_same)
  ultimately show ?thesis
    unfolding level_fields_changed_def by blast
qed

lemma level_fields_changed_trans:
  assumes "\<And>a b c. R a b \<Longrightarrow> R b c \<Longrightarrow> R a c"
    and "level_fields_changed R g g1" and "level_fields_changed R g1 g2"
  shows "level_fields_changed R g g2"
proof -
  from assms(2) obtain r1 l1 where
    g1: "g1 = g\<lparr>rand_calls := r1, ap_state := (ap_state g)\<lparr>level_states := l1\<rparr>\<rparr>"
    and a1: "list_all2 R (level_states (ap_state g)) l1"
    unfolding level_fields_changed_def by blast
  from assms(3) obtain r2 l2 where
    g2: "g2 = g1\<lparr>rand_calls := r2, ap_state := (ap_state g1)\<lparr>level_states := l2\<rparr>\<rparr>"
    and a2: "list_all2 R (level_states (ap_state g1)) l2"
    unfolding level_fields_changed_def by blast
  have "g2 = g\<lparr>rand_calls := r2, ap_state := (ap_state g)\<lparr>level_states := l2\<rparr>\<rparr>"
    by (simp add: g2 g1)
  moreover have "list_all2 R (level_states (ap_state g)) l2"
    using a1 a2 assms(1) by (simp add: g1) (rule list_all2_trans)
  ultimately show ?thesis
    unfolding level_fields_changed_def by blast
qed

lemma level_fields_changed_frame:
  assumes "level_fields_changed R g g'"
  shows "max_map_count g' = max_map_count g" "ap_episode_count g' = ap_episode_count g"
    "episodes (ap_state g') = episodes (ap_state g)" "rand_seed g' = rand_seed g"
    "length (level_states (ap_state g')) = length (level_states (ap_state g))"
    "random_music (ap_state g') = random_music (ap_state g)"
    "flip_levels (ap_state g') = flip_levels (ap_state g)"
    "level_offset g' = level_offset g" "episode_enabled g' = episode_enabled g"
    "\<And>j. j < length (level_states (ap_state g)) \<Longrightarrow>
       R (level_states (ap_state g) ! j) (level_states (ap_state g') ! j)"
  using assms
  by (auto simp: level_fields_changed_def level_offset_def episode_enabled_def fun_eq_iff
      list_all2_conv_all_nth)

lemma for_each_level_fields_changed_via:
  assumes run: "for_each body xs s = Some s'"
    and rf: "\<And>a. R a a" and tr: "\<And>a b c. R a b \<Longrightarrow> R b c \<Longrightarrow> R a c"
    and st: "\<And>x s s1. body x s = Some s1 \<Longrightarrow> level_fields_changed R (prj s) (prj s1)"
  shows "level_fields_changed R (prj s) (prj s')"
  using run
proof (induction xs arbitrary: s)
  case Nil
  then show ?case using level_fields_changed_refl [of R, OF rf] by simp
next
  case (Cons x xs)
  from Cons.prems obtain s1 where
    step: "body x s = Some s1" and rest: "for_each body xs s1 = Some s'"
    by (auto split: option.splits)
  show ?case
    by (rule level_fields_changed_trans [of R, OF tr st [OF step] Cons.IH [OF rest]])
qed

lemma only_flipped_order:
  "only_flipped a a" "only_flipped a b \<Longrightarrow> only_flipped b c \<Longrightarrow> only_flipped a c"
proof -
  have "a = a\<lparr>flipped := flipped a\<rparr>" by simp
  then show "only_flipped a a" unfolding only_flipped_def ..
next
  assume "only_flipped a b" "only_flipped b c"
  then obtain v w where "b = a\<lparr>flipped := v\<rparr>" "c = b\<lparr>flipped := w\<rparr>"
    unfolding only_flipped_def by blast
  then have "c = a\<lparr>flipped := w\<rparr>" by simp
  then show "only_flipped a c" unfolding only_flipped_def ..
qed

lemma only_music_order:
  "only_music a a" "only_music a b \<Longrightarrow> only_music b c \<Longrightarrow> only_music a c"
proof -
  have "a = a\<lparr>music := music a\<rparr>" by simp
  then show "only_music a a" unfolding only_music_def ..
next
  assume "only_music a b" "only_music b c"
  then obtain v w where "b = a\<lparr>music := v\<rparr>" "c = b\<lparr>music := w\<rparr>"
    unfolding only_music_def by blast
  then have "c = a\<lparr>music := w\<rparr>" by simp
  then show "only_music a c" unfolding only_music_def ..
qed

lemma only_flipped_music: "only_flipped a b \<Longrightarrow> music b = music a"
  and only_music_flipped: "only_music a b \<Longrightarrow> flipped b = flipped a"
  by (auto simp: only_flipped_def only_music_def)

lemma list_all2_update_one:
  assumes "\<And>a. R a a" and "i < length xs" and "R (xs ! i) y"
  shows "list_all2 R xs (xs[i := y])"
  using assms by (auto simp: list_all2_conv_all_nth nth_list_update)

lemma write_flipped_Some:
  assumes "write_flipped off v g = Some g1"
  shows "0 \<le> off \<and> nat off < length (level_states (ap_state g))
    \<and> g1 = g\<lparr>ap_state := (ap_state g)\<lparr>level_states := (level_states (ap_state g))
              [nat off := (level_states (ap_state g) ! nat off)\<lparr>flipped := v\<rparr>]\<rparr>\<rparr>"
  using assms
  by (auto simp: write_flipped_def level_state_at_def arr_get_def
      split: Option.bind_splits if_splits dest!: set_level_state_Some)

lemma write_music_Some:
  assumes "write_music off v g = Some g1"
  shows "0 \<le> off \<and> nat off < length (level_states (ap_state g))
    \<and> g1 = g\<lparr>ap_state := (ap_state g)\<lparr>level_states := (level_states (ap_state g))
              [nat off := (level_states (ap_state g) ! nat off)\<lparr>music := v\<rparr>]\<rparr>\<rparr>"
  using assms
  by (auto simp: write_music_def level_state_at_def arr_get_def
      split: Option.bind_splits if_splits dest!: set_level_state_Some)

lemma level_update_changed:
  assumes "\<And>a. R a a" and "j < length (level_states (ap_state g))"
    and "R (level_states (ap_state g) ! j) ls"
  shows "level_fields_changed R g
    (g\<lparr>rand_calls := r, ap_state := (ap_state g)\<lparr>level_states :=
        (level_states (ap_state g))[j := ls]\<rparr>\<rparr>)"
  unfolding level_fields_changed_def
  using list_all2_update_one [of R, OF assms] by blast

lemma write_flipped_changed:
  assumes "write_flipped off v g = Some g1"
  shows "level_fields_changed only_flipped g g1"
proof -
  from write_flipped_Some [OF assms]
  have r: "nat off < length (level_states (ap_state g))"
    and g1: "g1 = g\<lparr>rand_calls := rand_calls g, ap_state := (ap_state g)\<lparr>level_states :=
       (level_states (ap_state g))
         [nat off := (level_states (ap_state g) ! nat off)\<lparr>flipped := v\<rparr>]\<rparr>\<rparr>"
    by simp_all
  have "only_flipped (level_states (ap_state g) ! nat off)
      ((level_states (ap_state g) ! nat off)\<lparr>flipped := v\<rparr>)"
    unfolding only_flipped_def by blast
  from level_update_changed [where R = only_flipped and r = "rand_calls g",
      OF only_flipped_order(1) r this] g1
  show ?thesis by simp
qed

lemma write_music_changed:
  assumes "write_music off v g = Some g1"
  shows "level_fields_changed only_music g g1"
proof -
  from write_music_Some [OF assms]
  have r: "nat off < length (level_states (ap_state g))"
    and g1: "g1 = g\<lparr>rand_calls := rand_calls g, ap_state := (ap_state g)\<lparr>level_states :=
       (level_states (ap_state g))
         [nat off := (level_states (ap_state g) ! nat off)\<lparr>music := v\<rparr>]\<rparr>\<rparr>"
    by simp_all
  have "only_music (level_states (ap_state g) ! nat off)
      ((level_states (ap_state g) ! nat off)\<lparr>music := v\<rparr>)"
    unfolding only_music_def by blast
  from level_update_changed [where R = only_music and r = "rand_calls g",
      OF only_music_order(1) r this] g1
  show ?thesis by simp
qed

lemma rand_calls_changed:
  assumes "\<And>a. R a a"
  shows "level_fields_changed R g (g\<lparr>rand_calls := r\<rparr>)"
proof -
  have "g\<lparr>rand_calls := r\<rparr> = g\<lparr>rand_calls := r,
      ap_state := (ap_state g)\<lparr>level_states := level_states (ap_state g)\<rparr>\<rparr>"
    by simp
  moreover have "list_all2 R (level_states (ap_state g)) (level_states (ap_state g))"
    using assms by (simp add: list_all2_same)
  ultimately show ?thesis
    unfolding level_fields_changed_def by blast
qed

text \<open>One random flip: the draw, and the level state written.\<close>

lemma flip_random_level_Some:
  assumes "flip_random_level p ep mp g = Some g1"
  shows "\<exists>v. c_rem (libc_rand p (rand_seed g) (rand_calls g)) 2 = Some v
    \<and> 0 \<le> ep * max_map_count g + mp
    \<and> level_offset g (ep, mp) < length (level_states (ap_state g))
    \<and> g1 = g\<lparr>rand_calls := Suc (rand_calls g),
              ap_state := (ap_state g)\<lparr>level_states := (level_states (ap_state g))
                [level_offset g (ep, mp) :=
                   (level_states (ap_state g) ! level_offset g (ep, mp))\<lparr>flipped := v\<rparr>]\<rparr>\<rparr>"
  using assms
  by (auto simp: flip_random_level_def c_rand_def level_offset_def
      split: Option.bind_splits dest!: write_flipped_Some)

lemma flip_random_level_changed:
  assumes "flip_random_level p ep mp g = Some g1"
  shows "level_fields_changed only_flipped g g1"
proof -
  from assms obtain v where
    w: "write_flipped (ep * max_map_count g + mp) v (g\<lparr>rand_calls := Suc (rand_calls g)\<rparr>) = Some g1"
    by (auto simp: flip_random_level_def c_rand_def split: Option.bind_splits)
  from level_fields_changed_trans [of only_flipped, OF only_flipped_order(2)
      rand_calls_changed [of only_flipped, OF only_flipped_order(1)] write_flipped_changed [OF w]]
  show ?thesis .
qed

text \<open>What the loops over the levels change.\<close>

lemma flip_random_levels_changed:
  assumes "flip_random_levels p d g = Some g'"
  shows "level_fields_changed only_flipped g g'"
proof -
  have inner: "level_fields_changed only_flipped s s1"
    if "for_each (flip_random_level p ep) mps s = Some s1" for ep mps s s1
    using that
    by (rule for_each_level_fields_changed_via [where R = only_flipped and prj = "\<lambda>s. s"
          and body = "flip_random_level p ep"])
      (blast intro: only_flipped_order flip_random_level_changed)+
  from assms show ?thesis
    unfolding flip_random_levels_def
    by (rule for_each_level_fields_changed_via [where R = only_flipped and prj = "\<lambda>s. s"
          and body = "\<lambda>ep. for_each (flip_random_level p ep)
            (upto_count (ap_get_map_count d (ep + 1)))"])
      (blast intro: only_flipped_order inner)+
qed

lemma flip_all_levels_changed:
  assumes "flip_all_levels d g = Some g'"
  shows "level_fields_changed only_flipped g g'"
proof -
  have inner: "level_fields_changed only_flipped s s1"
    if "for_each (\<lambda>mp g1. write_flipped (ep * max_map_count g1 + mp) 1 g1) mps s = Some s1"
    for ep mps s s1
    using that
    by (rule for_each_level_fields_changed_via [where R = only_flipped and prj = "\<lambda>s. s"
          and body = "\<lambda>mp g1. write_flipped (ep * max_map_count g1 + mp) 1 g1"])
      (blast intro: only_flipped_order write_flipped_changed)+
  from assms show ?thesis
    unfolding flip_all_levels_def
    by (rule for_each_level_fields_changed_via [where R = only_flipped and prj = "\<lambda>s. s"
          and body = "\<lambda>ep. for_each (\<lambda>mp g1. write_flipped (ep * max_map_count g1 + mp) 1 g1)
            (upto_count (ap_get_map_count d (ep + 1)))"])
      (blast intro: only_flipped_order inner)+
qed

lemma assign_original_music_changed:
  assumes "assign_original_music d g = Some g'"
  shows "level_fields_changed only_music g g'"
proof -
  have step: "level_fields_changed only_music s s1"
    if "assign_original_music_level d ep mp s = Some s1" for ep mp s s1
    using that
    by (auto simp: assign_original_music_level_def split: Option.bind_splits
        intro: write_music_changed)
  have inner: "level_fields_changed only_music s s1"
    if "for_each (assign_original_music_level d ep) mps s = Some s1" for ep mps s s1
    using that
    by (rule for_each_level_fields_changed_via [where R = only_music and prj = "\<lambda>s. s"
          and body = "assign_original_music_level d ep"])
      (blast intro: only_music_order step)+
  from assms show ?thesis
    unfolding assign_original_music_def
    by (rule for_each_level_fields_changed_via [where R = only_music and prj = "\<lambda>s. s"
          and body = "\<lambda>ep. for_each (assign_original_music_level d ep)
            (upto_count (ap_get_map_count d (ep + 1)))"])
      (blast intro: only_music_order inner)+
qed

lemma shuffle_music_level_changed:
  assumes "shuffle_music_level p ep mp st = Some st1"
  shows "level_fields_changed only_music (snd st) (snd st1)"
proof -
  from assms obtain mus where
    w: "write_music (ep * max_map_count (snd st) + mp) mus
          ((snd st)\<lparr>rand_calls := Suc (rand_calls (snd st))\<rparr>) = Some (snd st1)"
    by (auto simp: shuffle_music_level_def c_rand_def Let_def split: Option.bind_splits)
  from level_fields_changed_trans [of only_music, OF only_music_order(2)
      rand_calls_changed [of only_music, OF only_music_order(1)] write_music_changed [OF w]]
  show ?thesis .
qed

lemma shuffle_music_changed:
  assumes "shuffle_music p d st = Some st'"
  shows "level_fields_changed only_music (snd st) (snd st')"
proof -
  have inner: "level_fields_changed only_music (snd s) (snd s1)"
    if "for_each (shuffle_music_level p ep) mps s = Some s1" for ep mps s s1
    using that
    by (rule for_each_level_fields_changed_via [where R = only_music and prj = snd
          and body = "shuffle_music_level p ep"])
      (blast intro: only_music_order shuffle_music_level_changed)+
  have outer: "level_fields_changed only_music (snd s) (snd s1)"
    if "(do {
         enabled \<leftarrow> arr_get (episodes (ap_state (snd s))) ep;
         if enabled \<noteq> 0
         then for_each (shuffle_music_level p ep) (upto_count (ap_get_map_count d (ep + 1))) s
         else Some s
       }) = Some s1" for ep s s1
    using that inner level_fields_changed_refl [of only_music, OF only_music_order(1)]
    by (auto split: Option.bind_splits if_splits)
  from assms show ?thesis
    unfolding shuffle_music_def
    by (rule for_each_level_fields_changed_via [where R = only_music and prj = snd
          and body = "\<lambda>ep st1. do {
             enabled \<leftarrow> arr_get (episodes (ap_state (snd st1))) ep;
             if enabled \<noteq> 0
             then for_each (shuffle_music_level p ep) (upto_count (ap_get_map_count d (ep + 1))) st1
             else Some st1
           }"])
      (blast intro: only_music_order outer)+
qed


text \<open>The random flips over a list of levels with distinct offsets: one draw for each, in order.\<close>

lemma flip_random_flat:
  assumes "for_each (\<lambda>lv. flip_random_level p (fst lv) (snd lv)) lvs g = Some g'"
  shows "rand_calls g' = rand_calls g + length lvs
    \<and> (\<forall>j. j \<notin> level_offset g ` set lvs \<longrightarrow>
          level_states (ap_state g') ! j = level_states (ap_state g) ! j)
    \<and> (\<forall>lv\<in>set lvs. level_offset g lv < length (level_states (ap_state g)))
    \<and> (distinct (map (level_offset g) lvs) \<longrightarrow>
          (\<forall>k<length lvs. c_rem (libc_rand p (rand_seed g) (rand_calls g + k)) 2
             = Some (flipped (level_states (ap_state g') ! level_offset g (lvs ! k)))))"
  using assms
proof (induction lvs arbitrary: g)
  case Nil
  then show ?case by simp
next
  case (Cons lv lvs)
  from Cons.prems obtain g1 where
    step: "flip_random_level p (fst lv) (snd lv) g = Some g1"
    and rest: "for_each (\<lambda>lv. flip_random_level p (fst lv) (snd lv)) lvs g1 = Some g'"
    by (auto split: option.splits)
  from flip_random_level_Some [OF step] obtain v where
    v: "c_rem (libc_rand p (rand_seed g) (rand_calls g)) 2 = Some v"
    and r: "level_offset g lv < length (level_states (ap_state g))"
    and g1: "g1 = g\<lparr>rand_calls := Suc (rand_calls g),
              ap_state := (ap_state g)\<lparr>level_states := (level_states (ap_state g))
                [level_offset g lv :=
                   (level_states (ap_state g) ! level_offset g lv)\<lparr>flipped := v\<rparr>]\<rparr>\<rparr>"
    by auto
  have off: "level_offset g1 = level_offset g"
    by (simp add: g1 level_offset_def fun_eq_iff)
  have calls: "rand_calls g1 = Suc (rand_calls g)" and seed: "rand_seed g1 = rand_seed g"
    by (simp_all add: g1)
  have l1: "level_states (ap_state g1) = (level_states (ap_state g))
      [level_offset g lv := (level_states (ap_state g) ! level_offset g lv)\<lparr>flipped := v\<rparr>]"
    by (simp add: g1)
  note ih = Cons.IH [OF rest, unfolded off calls seed]
  have a: "rand_calls g' = rand_calls g + length (lv # lvs)"
    using ih by simp
  have b: "level_states (ap_state g') ! j = level_states (ap_state g) ! j"
    if "j \<notin> level_offset g ` set (lv # lvs)" for j
    using ih that by (simp add: l1)
  have c: "c_rem (libc_rand p (rand_seed g) (rand_calls g + k)) 2
             = Some (flipped (level_states (ap_state g') ! level_offset g ((lv # lvs) ! k)))"
    if d: "distinct (map (level_offset g) (lv # lvs))" and k: "k < length (lv # lvs)" for k
  proof (cases k)
    case 0
    from d have "level_offset g lv \<notin> level_offset g ` set lvs" by simp
    with ih have "level_states (ap_state g') ! level_offset g lv
        = level_states (ap_state g1) ! level_offset g lv"
      by blast
    with r v 0 show ?thesis by (simp add: l1)
  next
    case (Suc k')
    with d k ih show ?thesis by simp
  qed
  have e: "\<forall>lv\<in>set (lv # lvs). level_offset g lv < length (level_states (ap_state g))"
    using ih r by (simp add: l1)
  from a b c e show ?case by blast
qed

lemma flip_random_levels_flat:
  "flip_random_levels p d g =
     for_each (\<lambda>lv. flip_random_level p (fst lv) (snd lv)) (levels_upto d (ap_episode_count g)) g"
  by (simp add: flip_random_levels_def levels_upto_def for_each_nested)

text \<open>
  The offsets of the levels of the table are distinct when no episode has more maps
  than \<open>max_map_count\<close>.
\<close>

lemma levels_upto_Suc:
  "levels_upto d (int (Suc n)) =
     levels_upto d (int n) @ map (Pair (int n)) (upto_count (ap_get_map_count d (int n + 1)))"
proof -
  have "[0..<nat (int (Suc n))] = [0..<n] @ [n]"
    by (simp only: nat_int upt_Suc_append)
  then show ?thesis
    unfolding levels_upto_def upto_count_def by (simp del: of_nat_Suc)
qed

lemma level_offsets_bounded:
  assumes "dims_ok d g" and "n \<le> length (preloaded_level_info d)"
    and "lv \<in> set (levels_upto d (int n))"
  shows "level_offset g lv < n * nat (max_map_count g)"
  using assms(2,3)
proof (induction n)
  case 0
  then show ?case by (simp add: levels_upto_def upto_count_def)
next
  case (Suc n)
  from assms(1) Suc.prems(1)
  have m: "int (length (preloaded_level_info d ! n)) \<le> max_map_count g"
    by (simp add: dims_ok_def list_all_length)
  show ?case
  proof (cases "lv \<in> set (levels_upto d (int n))")
    case True
    with Suc have "level_offset g lv < n * nat (max_map_count g)" by simp
    then show ?thesis by simp
  next
    case False
    with Suc.prems(2) have "lv \<in> set (map (Pair (int n))
        (upto_count (ap_get_map_count d (int n + 1))))"
      unfolding levels_upto_Suc by simp
    with Suc.prems(1) obtain mp where lv: "lv = (int n, int mp)"
      and mp: "mp < length (preloaded_level_info d ! n)"
      by (auto simp: upto_count_def ap_get_map_count_def get_level_info_table_def Let_def)
    from mp m have "int mp < max_map_count g" by simp
    then have "nat (int n * max_map_count g + int mp) < Suc n * nat (max_map_count g)"
      by (simp add: nat_add_distrib nat_mult_distrib)
    then show ?thesis by (simp add: lv level_offset_def)
  qed
qed

lemma level_offsets_distinct_upto:
  assumes "dims_ok d g" and "n \<le> length (preloaded_level_info d)"
  shows "distinct (map (level_offset g) (levels_upto d (int n)))"
  using assms(2)
proof (induction n)
  case 0
  then show ?case by (simp add: levels_upto_def upto_count_def)
next
  case (Suc n)
  from assms(1) Suc.prems
  have "int (length (preloaded_level_info d ! n)) \<le> max_map_count g"
    by (simp add: dims_ok_def list_all_length)
  then have m: "0 \<le> max_map_count g" by simp
  have new: "map (level_offset g) (map (Pair (int n)) (upto_count (ap_get_map_count d (int n + 1))))
      = map (\<lambda>mp. n * nat (max_map_count g) + mp) [0..<nat (ap_get_map_count d (int n + 1))]"
    using m by (simp add: upto_count_def level_offset_def nat_add_distrib nat_mult_distrib)
  have "distinct (map (\<lambda>mp. n * nat (max_map_count g) + mp)
      [0..<nat (ap_get_map_count d (int n + 1))])"
    by (simp add: distinct_map inj_on_def)
  moreover have "level_offset g lv \<notin> set (map (\<lambda>mp. n * nat (max_map_count g) + mp)
      [0..<nat (ap_get_map_count d (int n + 1))])"
    if "lv \<in> set (levels_upto d (int n))" for lv
    using level_offsets_bounded [OF assms(1) _ that] Suc.prems by auto
  moreover have "distinct (map (level_offset g) (levels_upto d (int n)))"
    using Suc by simp
  ultimately show ?case
    unfolding levels_upto_Suc map_append new by auto
qed

lemma level_list_upto:
  "dims_ok d g \<Longrightarrow> levels_upto d (ap_episode_count g) = level_list d"
  by (simp add: dims_ok_def levels_upto_def level_list_def)

lemma level_offsets_distinct:
  assumes "dims_ok d g"
  shows "distinct (map (level_offset g) (level_list d))"
  using level_offsets_distinct_upto [OF assms order_refl] level_list_upto [OF assms] assms
  by (simp add: dims_ok_def)

section \<open>The flips are a function of the seed string\<close>

text \<open>The hash of \<^verbatim>\<open>hash_seed\<close> in closed form.\<close>

lemma hash_seed_loop_fold:
  "hash_seed_loop sg str hash =
     foldl (\<lambda>hash c. hash * 33
         + word_of_int (if sg \<and> 128 \<le> int (of_char c) then int (of_char c) - 256
                        else int (of_char c)))
       hash (takeWhile (\<lambda>c. of_char c \<noteq> (0::nat)) str)"
  by (induction str arbitrary: hash)
    (simp_all add: push_bit_eq_mult mult.commute c_char_to_int_def Let_def)

lemma hash_seed_djb2:
  "hash_seed sg str =
     foldl (\<lambda>hash c. hash * 33
         + word_of_int (if sg \<and> 128 \<le> int (of_char c) then int (of_char c) - 256
                        else int (of_char c)))
       5381 (takeWhile (\<lambda>c. of_char c \<noteq> (0::nat)) str)"
  by (simp add: hash_seed_def hash_seed_loop_fold)

lemma select_default_episode_Some:
  assumes "select_default_episode g = Some g1"
  shows "\<exists>es. g1 = g\<lparr>ap_state := (ap_state g)\<lparr>episodes := es\<rparr>\<rparr>"
proof -
  from assms have "g1 = g \<or> (\<exists>es. g1 = g\<lparr>ap_state := (ap_state g)\<lparr>episodes := es\<rparr>\<rparr>)"
    by (auto simp: select_default_episode_def split: Option.bind_splits if_splits)
  moreover have "g = g\<lparr>ap_state := (ap_state g)\<lparr>episodes := episodes (ap_state g)\<rparr>\<rparr>"
    by simp
  ultimately show ?thesis by metis
qed

lemma c_srand_state:
  "ap_state (c_srand seed g) = ap_state g"
  by (simp add: c_srand_def)

lemma apdoom_init_randomization_steps:
  assumes "apdoom_init_randomization p d g = Some g'"
  obtains g1 g3 g4 where
    "select_default_episode g = Some g1"
    "(if flip_levels (ap_state g1) = 1
      then flip_all_levels d (c_srand (hash_seed (char_signed p) (apdoom_get_seed g1)) g1)
      else if flip_levels (ap_state g1) = 2
      then flip_random_levels p d (c_srand (hash_seed (char_signed p) (apdoom_get_seed g1)) g1)
      else Some (c_srand (hash_seed (char_signed p) (apdoom_get_seed g1)) g1)) = Some g3"
    "assign_original_music d g3 = Some g4"
    "g' = g4 \<or> (\<exists>pool st. shuffle_music p d (pool, g4) = Some st \<and> g' = snd st)"
    "random_music (ap_state g4) > 0 \<Longrightarrow>
       \<exists>pool st. collect_music_pool d g4 = Some pool
         \<and> shuffle_music p d (pool, g4) = Some st \<and> g' = snd st"
proof -
  from assms obtain g1 g3 g4 where
    a: "select_default_episode g = Some g1"
    "(if flip_levels (ap_state g1) = 1
      then flip_all_levels d (c_srand (hash_seed (char_signed p) (apdoom_get_seed g1)) g1)
      else if flip_levels (ap_state g1) = 2
      then flip_random_levels p d (c_srand (hash_seed (char_signed p) (apdoom_get_seed g1)) g1)
      else Some (c_srand (hash_seed (char_signed p) (apdoom_get_seed g1)) g1)) = Some g3"
    "assign_original_music d g3 = Some g4"
    and b: "(if random_music (ap_state g4) > 0 then do {
         music_pool \<leftarrow> collect_music_pool d g4;
         st \<leftarrow> shuffle_music p d (music_pool, g4);
         Some (snd st)
       } else Some g4) = Some g'"
    unfolding apdoom_init_randomization_def Let_def bind_eq_Some_conv
    by (auto simp: c_srand_state cong: if_cong)
  have c: "\<exists>pool st. collect_music_pool d g4 = Some pool
         \<and> shuffle_music p d (pool, g4) = Some st \<and> g' = snd st"
    if "random_music (ap_state g4) > 0"
  proof -
    from that b obtain pool rest where pool: "collect_music_pool d g4 = Some pool"
      and sh: "shuffle_music p d (pool, g4) = Some (rest, g')"
      by (auto simp: bind_eq_Some_conv)
    have "g' = snd (rest, g')" by simp
    with pool sh show ?thesis by blast
  qed
  have e: "g' = g4 \<or> (\<exists>pool st. shuffle_music p d (pool, g4) = Some st \<and> g' = snd st)"
  proof (cases "random_music (ap_state g4) > 0")
    case True
    from c [OF True] show ?thesis by blast
  next
    case False
    with b show ?thesis by simp
  qed
  show ?thesis
    by (rule that [OF a e c])
qed

lemma flips_from_seed:
  assumes dims: "dims_ok d g"
    and mode: "flip_levels (ap_state g) = 2"
    and run: "apdoom_init_randomization p d g = Some g'"
    and k: "k < length (level_list d)"
  shows "c_rem (libc_rand p (ucast (hash_seed (char_signed p) (ap_save_dir_name g))) k) 2
    = Some (flipped (level_states (ap_state g') ! level_offset g (level_list d ! k)))"
proof -
  from run obtain g1 g3 g4 where
    sel: "select_default_episode g = Some g1"
    and flip: "(if flip_levels (ap_state g1) = 1
            then flip_all_levels d (c_srand (hash_seed (char_signed p) (apdoom_get_seed g1)) g1)
            else if flip_levels (ap_state g1) = 2
            then flip_random_levels p d (c_srand (hash_seed (char_signed p) (apdoom_get_seed g1)) g1)
            else Some (c_srand (hash_seed (char_signed p) (apdoom_get_seed g1)) g1)) = Some g3"
    and orig: "assign_original_music d g3 = Some g4"
    and shuf: "g' = g4 \<or> (\<exists>pool st. shuffle_music p d (pool, g4) = Some st \<and> g' = snd st)"
    by (rule apdoom_init_randomization_steps)
  from select_default_episode_Some [OF sel] obtain es where
    g1: "g1 = g\<lparr>ap_state := (ap_state g)\<lparr>episodes := es\<rparr>\<rparr>" ..
  define g2 where "g2 = c_srand (hash_seed (char_signed p) (apdoom_get_seed g1)) g1"
  have g2: "rand_seed g2 = ucast (hash_seed (char_signed p) (ap_save_dir_name g))"
    "rand_calls g2 = 0" "level_offset g2 = level_offset g" "dims_ok d g2"
    "ap_episode_count g2 = ap_episode_count g"
    using dims by (simp_all add: g2_def g1 c_srand_def apdoom_get_seed_def level_offset_def
        dims_ok_def fun_eq_iff)
  from flip mode have "flip_random_levels p d g2 = Some g3"
    by (simp add: g1 g2_def c_srand_def)
  then have flat: "for_each (\<lambda>lv. flip_random_level p (fst lv) (snd lv)) (level_list d) g2 = Some g3"
    using level_list_upto [OF g2(4)] by (simp add: flip_random_levels_flat)
  from flip_random_flat [OF flat] level_offsets_distinct [OF g2(4)] k g2
  have v: "c_rem (libc_rand p (ucast (hash_seed (char_signed p) (ap_save_dir_name g))) k) 2
      = Some (flipped (level_states (ap_state g3) ! level_offset g (level_list d ! k)))"
    and r: "level_offset g (level_list d ! k) < length (level_states (ap_state g2))"
    by simp_all
  from for_each_level_fields_changed_via [where prj = "\<lambda>s. s" and R = only_flipped, OF flat]
  have "level_fields_changed only_flipped g2 g3"
    by (blast intro: only_flipped_order flip_random_level_changed)
  from level_fields_changed_frame(5) [OF this] r
  have r3: "level_offset g (level_list d ! k) < length (level_states (ap_state g3))"
    by simp
  have c34: "level_fields_changed only_music g3 g4"
    by (rule assign_original_music_changed [OF orig])
  from shuf have "level_fields_changed only_music g4 g'"
  proof
    assume "g' = g4"
    then show ?thesis
      using level_fields_changed_refl [of only_music g4] only_music_order(1) by simp
  next
    assume "\<exists>pool st. shuffle_music p d (pool, g4) = Some st \<and> g' = snd st"
    then show ?thesis
      using shuffle_music_changed by fastforce
  qed
  with c34 have "level_fields_changed only_music g3 g'"
    by (blast intro: level_fields_changed_trans [of only_music] only_music_order(2))
  from level_fields_changed_frame(10) [OF this r3]
  have "flipped (level_states (ap_state g') ! level_offset g (level_list d ! k))
      = flipped (level_states (ap_state g3) ! level_offset g (level_list d ! k))"
    by (rule only_music_flipped)
  with v show ?thesis by simp
qed

text \<open>
  C9.  With flip mode 2, the flip of the level number \<open>k\<close> of the table (episodes
  in order, maps in order within an episode) is the draw number \<open>k\<close> of the C
  library's generator, modulo 2, seeded with the low 32 bits of the hash of the save
  directory's name.  The hash starts at 5381 and takes \<open>hash * 33 + c\<close> for every
  character \<open>c\<close> of the name up to its first zero, in 64 bits, a character above 127
  counting as negative where \<^verbatim>\<open>char\<close> is signed.  So two runs that start in states
  with the same directory name give every level the same flip, whatever else the two
  states hold.
\<close>

theorem flip_derivation_deterministic:
  assumes "dims_ok d g" and "dims_ok d h"
    and "ap_save_dir_name g = ap_save_dir_name h"
    and "flip_levels (ap_state g) = 2" and "flip_levels (ap_state h) = 2"
    and "apdoom_init_randomization p d g = Some g'"
    and "apdoom_init_randomization p d h = Some h'"
    and "k < length (level_list d)"
  shows "flipped (level_states (ap_state g') ! level_offset g (level_list d ! k))
      = flipped (level_states (ap_state h') ! level_offset h (level_list d ! k))
    \<and> c_rem (libc_rand p (ucast (hash_seed (char_signed p) (ap_save_dir_name g))) k) 2
      = Some (flipped (level_states (ap_state g') ! level_offset g (level_list d ! k)))
    \<and> hash_seed (char_signed p) (ap_save_dir_name g)
      = foldl (\<lambda>hash c. hash * 33
            + word_of_int (if char_signed p \<and> 128 \<le> int (of_char c)
                           then int (of_char c) - 256 else int (of_char c)))
          5381 (takeWhile (\<lambda>c. of_char c \<noteq> (0::nat)) (ap_save_dir_name g))"
  using flips_from_seed [OF assms(1,4,6,8)] flips_from_seed [OF assms(2,5,7,8)] assms(3)
    hash_seed_djb2 [of "char_signed p" "ap_save_dir_name g"]
  by simp

text \<open>
  Two runs in the small game from states with the same save directory, the second
  one with the music shuffle on: the flips agree and are the draws after the seed
  191906861, the low 32 bits of the hash 10785840229767988269 of the directory's
  name; the music does not agree.
\<close>

theorem flip_derivation_deterministic_witness:
  "(case apdoom_init_randomization demo_platform demo_defs demo_seeded of
      None \<Rightarrow> False
    | Some g' \<Rightarrow>
        (case apdoom_init_randomization demo_platform demo_defs demo_seeded_music of
           None \<Rightarrow> False
         | Some h' \<Rightarrow>
             flipped (level_states (ap_state g') ! 1) = flipped (level_states (ap_state h') ! 1)
             \<and> c_rem (libc_rand demo_platform 191906861 1) 2
                 = Some (flipped (level_states (ap_state g') ! 1))
             \<and> hash_seed True ''AP_12345_446F6F6D'' = 10785840229767988269
             \<and> map flipped (level_states (ap_state g')) = [1, 0]
             \<and> map music (level_states (ap_state g')) = [1, 2]
             \<and> map music (level_states (ap_state h')) = [2, 1]))"
proof -
  have "map_option (\<lambda>g'. map (\<lambda>ls. (flipped ls, music ls)) (level_states (ap_state g')))
      (apdoom_init_randomization demo_platform demo_defs demo_seeded) = Some [(1, 1), (0, 2)]"
    by code_simp
  then obtain g' where
    rg: "apdoom_init_randomization demo_platform demo_defs demo_seeded = Some g'"
    and vg: "map (\<lambda>ls. (flipped ls, music ls)) (level_states (ap_state g')) = [(1, 1), (0, 2)]"
    by auto
  have "map_option (\<lambda>g'. map music (level_states (ap_state g')))
      (apdoom_init_randomization demo_platform demo_defs demo_seeded_music) = Some [2, 1]"
    by code_simp
  then obtain h' where
    rh: "apdoom_init_randomization demo_platform demo_defs demo_seeded_music = Some h'"
    and vh: "map music (level_states (ap_state h')) = [2, 1]"
    by auto
  have dims: "dims_ok demo_defs demo_seeded" "dims_ok demo_defs demo_seeded_music"
    by code_simp+
  have dir: "ap_save_dir_name demo_seeded = ap_save_dir_name demo_seeded_music"
    by code_simp
  have mode: "flip_levels (ap_state demo_seeded) = 2"
    "flip_levels (ap_state demo_seeded_music) = 2"
    by code_simp+
  have k: "1 < length (level_list demo_defs)"
    by code_simp
  have off: "level_offset demo_seeded (level_list demo_defs ! 1) = 1"
    "level_offset demo_seeded_music (level_list demo_defs ! 1) = 1"
    by code_simp+
  have name: "ap_save_dir_name demo_seeded = ''AP_12345_446F6F6D''"
    "char_signed demo_platform = True"
    by code_simp+
  have fold: "foldl (\<lambda>hash c. hash * 33
            + word_of_int (if True \<and> 128 \<le> int (of_char c)
                           then int (of_char c) - 256 else int (of_char c)))
          (5381 :: 64 word) (takeWhile (\<lambda>c. of_char c \<noteq> (0::nat)) ''AP_12345_446F6F6D'')
      = 10785840229767988269"
    by code_simp
  have low: "(ucast (10785840229767988269 :: 64 word) :: 32 word) = 191906861"
    by code_simp
  note main = flip_derivation_deterministic [OF dims dir mode rg rh k, unfolded off name fold]
  from main have "flipped (level_states (ap_state g') ! 1) = flipped (level_states (ap_state h') ! 1)"
    by simp
  moreover from main have hash: "hash_seed True ''AP_12345_446F6F6D'' = 10785840229767988269"
    by simp
  moreover from main have "c_rem (libc_rand demo_platform 191906861 1) 2
      = Some (flipped (level_states (ap_state g') ! 1))"
    by (simp only: hash low)
  moreover from vg have "map flipped (level_states (ap_state g')) = [1, 0]"
    "map music (level_states (ap_state g')) = [1, 2]"
    by (auto simp: map_eq_Cons_conv)
  ultimately show ?thesis
    using rg rh vh by simp
qed

section \<open>The music shuffle is a permutation\<close>

text \<open>A loop over the maps of the episodes that pass a test read from the state.\<close>

lemma for_each_nested_cond:
  assumes run: "for_each (\<lambda>x s. do {
        e \<leftarrow> rd x s;
        if tst e then for_each (body x) (f x) s else Some s
      }) xs s = Some s'"
    and inv: "\<And>x y s s1 x'. body x y s = Some s1 \<Longrightarrow> rd x' s1 = rd x' s"
  shows "for_each (\<lambda>lv. body (fst lv) (snd lv))
      (filter (\<lambda>lv. case rd (fst lv) s of None \<Rightarrow> False | Some e \<Rightarrow> tst e)
        (concat (map (\<lambda>x. map (Pair x) (f x)) xs))) s = Some s'"
  using run
proof (induction xs arbitrary: s)
  case Nil
  then show ?case by simp
next
  case (Cons x xs)
  have inner_inv: "rd x' s1 = rd x' s0"
    if "for_each (body x) ys s0 = Some s1" for ys s0 s1 x'
    using that
  proof (induction ys arbitrary: s0)
    case Nil
    then show ?case by simp
  next
    case (Cons y ys)
    then obtain s2 where "body x y s0 = Some s2" "for_each (body x) ys s2 = Some s1"
      by (auto split: option.splits)
    with Cons.IH inv show ?case by metis
  qed
  from Cons.prems obtain e s1 where
    e: "rd x s = Some e"
    and step: "(if tst e then for_each (body x) (f x) s else Some s) = Some s1"
    and rest: "for_each (\<lambda>x s. do {
        e \<leftarrow> rd x s;
        if tst e then for_each (body x) (f x) s else Some s
      }) xs s1 = Some s'"
    by (auto simp: bind_eq_Some_conv split: option.splits)
  have same: "rd x' s1 = rd x' s" for x'
    using step inner_inv by (cases "tst e") auto
  have here: "filter (\<lambda>lv. case rd (fst lv) s of None \<Rightarrow> False | Some e \<Rightarrow> tst e)
      (map (Pair x) (f x)) = (if tst e then map (Pair x) (f x) else [])"
    using e by (simp add: filter_map comp_def)
  from Cons.IH [OF rest]
  have tail: "for_each (\<lambda>lv. body (fst lv) (snd lv))
      (filter (\<lambda>lv. case rd (fst lv) s of None \<Rightarrow> False | Some e \<Rightarrow> tst e)
        (concat (map (\<lambda>x. map (Pair x) (f x)) xs))) s1 = Some s'"
    by (simp add: same)
  show ?case
  proof (cases "tst e")
    case True
    with step have "for_each (body x) (f x) s = Some s1" by simp
    with True tail show ?thesis
      by (simp add: here for_each_append for_each_pairs)
  next
    case False
    with step have "s1 = s" by simp
    with False tail show ?thesis
      by (simp add: here)
  qed
qed

lemma level_fields_changed_dims:
  assumes "level_fields_changed R g g'"
  shows "dims_ok d g' = dims_ok d g"
  using level_fields_changed_frame(1,2) [OF assms] by (simp add: dims_ok_def)

text \<open>The original music of the levels of a list with distinct offsets.\<close>

lemma assign_original_music_level_Some:
  assumes "assign_original_music_level d ep mp g = Some g1"
  shows "\<exists>m. get_original_music_for_level d (ep + 1) (mp + 1) = Some m
    \<and> level_offset g (ep, mp) < length (level_states (ap_state g))
    \<and> g1 = g\<lparr>ap_state := (ap_state g)\<lparr>level_states := (level_states (ap_state g))
                [level_offset g (ep, mp) :=
                   (level_states (ap_state g) ! level_offset g (ep, mp))\<lparr>music := m\<rparr>]\<rparr>\<rparr>"
  using assms
  by (auto simp: assign_original_music_level_def level_offset_def
      split: Option.bind_splits dest!: write_music_Some)

lemma assign_original_music_flat:
  assumes "for_each (\<lambda>lv. assign_original_music_level d (fst lv) (snd lv)) lvs g = Some g'"
  shows "(\<forall>lv\<in>set lvs. level_offset g lv < length (level_states (ap_state g)))
    \<and> (\<forall>j. j \<notin> level_offset g ` set lvs \<longrightarrow>
          level_states (ap_state g') ! j = level_states (ap_state g) ! j)
    \<and> (distinct (map (level_offset g) lvs) \<longrightarrow>
          (\<forall>lv\<in>set lvs. get_original_music_for_level d (fst lv + 1) (snd lv + 1)
             = Some (music (level_states (ap_state g') ! level_offset g lv))))"
  using assms
proof (induction lvs arbitrary: g)
  case Nil
  then show ?case by simp
next
  case (Cons lv lvs)
  from Cons.prems obtain g1 where
    step: "assign_original_music_level d (fst lv) (snd lv) g = Some g1"
    and rest: "for_each (\<lambda>lv. assign_original_music_level d (fst lv) (snd lv)) lvs g1 = Some g'"
    by (auto split: option.splits)
  from assign_original_music_level_Some [OF step] obtain m where
    m: "get_original_music_for_level d (fst lv + 1) (snd lv + 1) = Some m"
    and r: "level_offset g lv < length (level_states (ap_state g))"
    and g1: "g1 = g\<lparr>ap_state := (ap_state g)\<lparr>level_states := (level_states (ap_state g))
                [level_offset g lv :=
                   (level_states (ap_state g) ! level_offset g lv)\<lparr>music := m\<rparr>]\<rparr>\<rparr>"
    by auto
  have off: "level_offset g1 = level_offset g"
    by (simp add: g1 level_offset_def fun_eq_iff)
  have l1: "level_states (ap_state g1) = (level_states (ap_state g))
      [level_offset g lv := (level_states (ap_state g) ! level_offset g lv)\<lparr>music := m\<rparr>]"
    by (simp add: g1)
  note ih = Cons.IH [OF rest, unfolded off]
  have a: "\<forall>lv\<in>set (lv # lvs). level_offset g lv < length (level_states (ap_state g))"
    using ih r by (simp add: l1)
  have b: "level_states (ap_state g') ! j = level_states (ap_state g) ! j"
    if "j \<notin> level_offset g ` set (lv # lvs)" for j
    using ih that by (simp add: l1)
  have c: "get_original_music_for_level d (fst x + 1) (snd x + 1)
             = Some (music (level_states (ap_state g') ! level_offset g x))"
    if d: "distinct (map (level_offset g) (lv # lvs))" and x: "x \<in> set (lv # lvs)" for x
  proof (cases "x \<in> set lvs")
    case True
    with d ih show ?thesis by simp
  next
    case False
    with x have "x = lv" by simp
    from d have "level_offset g lv \<notin> level_offset g ` set lvs" by simp
    with ih have "level_states (ap_state g') ! level_offset g lv
        = level_states (ap_state g1) ! level_offset g lv"
      by blast
    with r m \<open>x = lv\<close> show ?thesis by (simp add: l1)
  qed
  from a b c show ?case by blast
qed

lemma assign_original_music_flat_eq:
  "assign_original_music d g =
     for_each (\<lambda>lv. assign_original_music_level d (fst lv) (snd lv))
       (levels_upto d (ap_episode_count g)) g"
  by (simp add: assign_original_music_def levels_upto_def for_each_nested)

text \<open>The pool collected from the levels of a list.\<close>

lemma collect_music_flat:
  assumes "for_each (\<lambda>lv. collect_music_level g (fst lv) (snd lv)) lvs pool = Some pool'"
  shows "pool' = pool @ map (\<lambda>lv. music (level_states (ap_state g) ! level_offset g lv)) lvs"
  using assms
proof (induction lvs arbitrary: pool)
  case Nil
  then show ?case by simp
next
  case (Cons lv lvs)
  from Cons.prems obtain pool1 where
    step: "collect_music_level g (fst lv) (snd lv) pool = Some pool1"
    and rest: "for_each (\<lambda>lv. collect_music_level g (fst lv) (snd lv)) lvs pool1 = Some pool'"
    by (auto split: option.splits)
  from step have "pool1 = pool @ [music (level_states (ap_state g) ! level_offset g lv)]"
    by (auto simp: collect_music_level_def level_state_at_def arr_get_def level_offset_def
        split: Option.bind_splits if_splits)
  with Cons.IH [OF rest] show ?case by simp
qed

lemma collect_music_pool_enabled:
  assumes "collect_music_pool d g = Some pool"
    and "random_music (ap_state g) \<noteq> 2"
  shows "pool = map (\<lambda>lv. music (level_states (ap_state g) ! level_offset g lv))
      (filter (\<lambda>lv. episode_enabled g (fst lv)) (levels_upto d (ap_episode_count g)))"
proof -
  from assms(1) have "for_each (\<lambda>ep music_pool. do {
         enabled \<leftarrow> arr_get (episodes (ap_state g)) ep;
         if enabled \<noteq> 0 \<or> random_music (ap_state g) = 2
         then for_each (collect_music_level g ep) (upto_count (ap_get_map_count d (ep + 1)))
                music_pool
         else Some music_pool
       }) (upto_count (ap_episode_count g)) [] = Some pool"
    by (simp add: collect_music_pool_def)
  from for_each_nested_cond [where rd = "\<lambda>ep pool. arr_get (episodes (ap_state g)) ep"
      and tst = "\<lambda>e. e \<noteq> 0 \<or> random_music (ap_state g) = 2"
      and body = "collect_music_level g", OF this]
  have flat: "for_each (\<lambda>lv. collect_music_level g (fst lv) (snd lv))
      (filter (\<lambda>lv. case arr_get (episodes (ap_state g)) (fst lv) of
                      None \<Rightarrow> False | Some e \<Rightarrow> e \<noteq> 0 \<or> random_music (ap_state g) = 2)
        (levels_upto d (ap_episode_count g))) [] = Some pool"
    by (simp add: levels_upto_def)
  have pred: "(\<lambda>lv. case arr_get (episodes (ap_state g)) (fst lv) of
                      None \<Rightarrow> False | Some e \<Rightarrow> e \<noteq> 0 \<or> random_music (ap_state g) = 2)
      = (\<lambda>lv. episode_enabled g (fst lv))"
    using assms(2) by (auto simp: fun_eq_iff episode_enabled_def split: option.splits)
  have "for_each (\<lambda>lv. collect_music_level g (fst lv) (snd lv))
      (filter (\<lambda>lv. episode_enabled g (fst lv)) (levels_upto d (ap_episode_count g))) []
        = Some pool"
    using flat unfolding pred .
  from collect_music_flat [OF this] show ?thesis by simp
qed


text \<open>Each draw of the shuffle moves one element of the pool into a level.\<close>

lemma shuffle_music_level_Some:
  assumes "shuffle_music_level p ep mp (pool, g) = Some (pool1, g1)"
  shows "\<exists>n<length pool. pool1 = take n pool @ drop (Suc n) pool
    \<and> level_offset g (ep, mp) < length (level_states (ap_state g))
    \<and> level_offset g1 = level_offset g
    \<and> level_states (ap_state g1) = (level_states (ap_state g))
         [level_offset g (ep, mp) :=
            (level_states (ap_state g) ! level_offset g (ep, mp))\<lparr>music := pool ! n\<rparr>]"
proof -
  from assms obtain rnd where
    rnd: "arr_get pool rnd = Some (pool ! nat rnd)" "0 \<le> rnd" "nat rnd < length pool"
    and pool1: "pool1 = take (nat rnd) pool @ drop (Suc (nat rnd)) pool"
    and w: "write_music (ep * max_map_count g + mp) (pool ! nat rnd)
              (g\<lparr>rand_calls := Suc (rand_calls g)\<rparr>) = Some g1"
    by (auto simp: shuffle_music_level_def c_rand_def Let_def arr_get_def
        split: Option.bind_splits if_splits)
  from write_music_Some [OF w] rnd(3) pool1 show ?thesis
    by (intro exI [where x = "nat rnd"]) (auto simp: level_offset_def fun_eq_iff)
qed

lemma mset_remove_nth:
  assumes "n < length xs"
  shows "mset xs = add_mset (xs ! n) (mset (take n xs @ drop (Suc n) xs))"
proof -
  from assms have "xs = take n xs @ xs ! n # drop (Suc n) xs"
    by (rule id_take_nth_drop)
  then have "mset xs = mset (take n xs @ xs ! n # drop (Suc n) xs)"
    by simp
  then show ?thesis by simp
qed

lemma shuffle_music_flat:
  assumes "for_each (\<lambda>lv. shuffle_music_level p (fst lv) (snd lv)) lvs (pool, g)
      = Some (pool', g')"
  shows "(\<forall>lv\<in>set lvs. level_offset g lv < length (level_states (ap_state g)))
    \<and> (\<forall>j. j \<notin> level_offset g ` set lvs \<longrightarrow>
          level_states (ap_state g') ! j = level_states (ap_state g) ! j)
    \<and> (distinct (map (level_offset g) lvs) \<longrightarrow>
          mset (map (\<lambda>lv. music (level_states (ap_state g') ! level_offset g lv)) lvs)
            + mset pool' = mset pool)"
  using assms
proof (induction lvs arbitrary: pool g)
  case Nil
  then show ?case by simp
next
  case (Cons lv lvs)
  from Cons.prems obtain pool1 g1 where
    step: "shuffle_music_level p (fst lv) (snd lv) (pool, g) = Some (pool1, g1)"
    and rest: "for_each (\<lambda>lv. shuffle_music_level p (fst lv) (snd lv)) lvs (pool1, g1)
        = Some (pool', g')"
    by (auto split: option.splits)
  from shuffle_music_level_Some [OF step] obtain n where
    n: "n < length pool"
    and pool1: "pool1 = take n pool @ drop (Suc n) pool"
    and r: "level_offset g lv < length (level_states (ap_state g))"
    and off: "level_offset g1 = level_offset g"
    and l1: "level_states (ap_state g1) = (level_states (ap_state g))
         [level_offset g lv := (level_states (ap_state g) ! level_offset g lv)\<lparr>music := pool ! n\<rparr>]"
    by auto
  note ih = Cons.IH [OF rest, unfolded off]
  have a: "\<forall>lv\<in>set (lv # lvs). level_offset g lv < length (level_states (ap_state g))"
    using ih r by (simp add: l1)
  have b: "level_states (ap_state g') ! j = level_states (ap_state g) ! j"
    if "j \<notin> level_offset g ` set (lv # lvs)" for j
    using ih that by (simp add: l1)
  have c: "mset (map (\<lambda>lv. music (level_states (ap_state g') ! level_offset g lv)) (lv # lvs))
            + mset pool' = mset pool"
    if d: "distinct (map (level_offset g) (lv # lvs))"
  proof -
    from d have "level_offset g lv \<notin> level_offset g ` set lvs" by simp
    with ih have "level_states (ap_state g') ! level_offset g lv
        = level_states (ap_state g1) ! level_offset g lv"
      by blast
    with r have head: "music (level_states (ap_state g') ! level_offset g lv) = pool ! n"
      by (simp add: l1)
    from d ih have tail:
      "mset (map (\<lambda>lv. music (level_states (ap_state g') ! level_offset g lv)) lvs)
         + mset pool' = mset pool1"
      by simp
    from mset_remove_nth [OF n] have "mset pool = add_mset (pool ! n) (mset pool1)"
      by (simp only: pool1)
    with head tail show ?thesis by simp
  qed
  from a b c show ?case by blast
qed

lemma shuffle_music_enabled:
  assumes "shuffle_music p d (pool, g) = Some (pool', g')"
  shows "for_each (\<lambda>lv. shuffle_music_level p (fst lv) (snd lv))
      (filter (\<lambda>lv. episode_enabled g (fst lv)) (levels_upto d (ap_episode_count g)))
      (pool, g) = Some (pool', g')"
proof -
  from assms have run: "for_each (\<lambda>ep st1. do {
         enabled \<leftarrow> arr_get (episodes (ap_state (snd st1))) ep;
         if enabled \<noteq> 0
         then for_each (shuffle_music_level p ep) (upto_count (ap_get_map_count d (ep + 1))) st1
         else Some st1
       }) (upto_count (ap_episode_count g)) (pool, g) = Some (pool', g')"
    by (simp add: shuffle_music_def)
  have inv: "arr_get (episodes (ap_state (snd s1))) x' = arr_get (episodes (ap_state (snd s))) x'"
    if "shuffle_music_level p x y s = Some s1" for x y s s1 x'
    using level_fields_changed_frame(3) [OF shuffle_music_level_changed [OF that]] by simp
  from for_each_nested_cond [where rd = "\<lambda>ep st1. arr_get (episodes (ap_state (snd st1))) ep"
      and tst = "\<lambda>e. e \<noteq> 0" and body = "shuffle_music_level p", OF run inv]
  show ?thesis
    by (simp add: levels_upto_def episode_enabled_def)
qed

text \<open>The seed and the flips leave the dimensions, the episodes and the music mode.\<close>

lemma randomization_flip_frame:
  assumes "(if flip_levels (ap_state g1) = 1
      then flip_all_levels d (c_srand seed g1)
      else if flip_levels (ap_state g1) = 2
      then flip_random_levels p d (c_srand seed g1)
      else Some (c_srand seed g1)) = Some g3"
  shows "dims_ok d g3 = dims_ok d g1" "episode_enabled g3 = episode_enabled g1"
    "random_music (ap_state g3) = random_music (ap_state g1)"
proof -
  define g2 where "g2 = c_srand seed g1"
  have g2: "dims_ok d g2 = dims_ok d g1" "episode_enabled g2 = episode_enabled g1"
    "random_music (ap_state g2) = random_music (ap_state g1)"
    by (simp_all add: g2_def c_srand_def dims_ok_def episode_enabled_def fun_eq_iff)
  from assms have "level_fields_changed only_flipped g2 g3"
    unfolding g2_def [symmetric]
    using flip_all_levels_changed [of d g2 g3] flip_random_levels_changed [of p d g2 g3]
      level_fields_changed_refl [of only_flipped g2] only_flipped_order(1)
    by (auto split: if_splits)
  from level_fields_changed_dims [OF this] level_fields_changed_frame(9) [OF this]
    level_fields_changed_frame(6) [OF this] g2
  show "dims_ok d g3 = dims_ok d g1" "episode_enabled g3 = episode_enabled g1"
    "random_music (ap_state g3) = random_music (ap_state g1)"
    by simp_all
qed

text \<open>
  C8.  With music shuffle mode 1, after the randomization of \<^verbatim>\<open>apdoom_init\<close> the music
  ids of the levels of the enabled episodes are, counted with multiplicity, exactly
  the original music ids of those levels: the pool is built from the enabled levels'
  original tracks, every draw removes the drawn element from the pool, and every
  enabled level receives one draw.  The state is read where the run has a defined
  result and no episode of the table has more maps than \<open>max_map_count\<close>.
\<close>

theorem music_shuffle_permutes_enabled_originals:
  assumes dims: "dims_ok d g"
    and mode: "random_music (ap_state g) = 1"
    and run: "apdoom_init_randomization p d g = Some g'"
  shows "mset (map (\<lambda>lv. Some (music (level_states (ap_state g') ! level_offset g' lv)))
             (enabled_levels d g'))
       = mset (map (\<lambda>lv. get_original_music_for_level d (fst lv + 1) (snd lv + 1))
             (enabled_levels d g'))"
proof -
  from run obtain g1 g3 g4 where
    sel: "select_default_episode g = Some g1"
    and flip: "(if flip_levels (ap_state g1) = 1
            then flip_all_levels d (c_srand (hash_seed (char_signed p) (apdoom_get_seed g1)) g1)
            else if flip_levels (ap_state g1) = 2
            then flip_random_levels p d (c_srand (hash_seed (char_signed p) (apdoom_get_seed g1)) g1)
            else Some (c_srand (hash_seed (char_signed p) (apdoom_get_seed g1)) g1)) = Some g3"
    and orig: "assign_original_music d g3 = Some g4"
    and "g' = g4 \<or> (\<exists>pool st. shuffle_music p d (pool, g4) = Some st \<and> g' = snd st)"
    and shuf: "random_music (ap_state g4) > 0 \<Longrightarrow>
       \<exists>pool st. collect_music_pool d g4 = Some pool
         \<and> shuffle_music p d (pool, g4) = Some st \<and> g' = snd st"
    by (rule apdoom_init_randomization_steps) (rule that; (assumption | blast))
  from select_default_episode_Some [OF sel] obtain es where
    g1: "g1 = g\<lparr>ap_state := (ap_state g)\<lparr>episodes := es\<rparr>\<rparr>" ..
  have d1: "dims_ok d g1" "random_music (ap_state g1) = 1"
    using dims mode by (simp_all add: g1 dims_ok_def)
  note f13 = randomization_flip_frame [OF flip]
  have d3: "dims_ok d g3" "random_music (ap_state g3) = 1"
    using f13 d1 by simp_all
  have c34: "level_fields_changed only_music g3 g4"
    by (rule assign_original_music_changed [OF orig])
  have d4: "dims_ok d g4" "random_music (ap_state g4) = 1" "level_offset g4 = level_offset g3"
    using level_fields_changed_dims [OF c34] level_fields_changed_frame(6,8) [OF c34] d3
    by simp_all
  from shuf d4(2) obtain pool pool' where
    coll: "collect_music_pool d g4 = Some pool"
    and sh: "shuffle_music p d (pool, g4) = Some (pool', g')"
    by (cases "random_music (ap_state g4) > 0") (auto simp: prod_eq_iff)
  have c4': "level_fields_changed only_music g4 g'"
    using shuffle_music_changed [OF sh] by simp
  have off: "level_offset g' = level_offset g4"
    and en: "episode_enabled g' = episode_enabled g4"
    using level_fields_changed_frame(8,9) [OF c4'] by simp_all
  define E where "E = enabled_levels d g'"
  have E: "E = filter (\<lambda>lv. episode_enabled g4 (fst lv)) (levels_upto d (ap_episode_count g4))"
    by (simp add: E_def enabled_levels_def en level_list_upto [OF d4(1)])
  have sub: "set E \<subseteq> set (level_list d)"
    by (auto simp: E_def enabled_levels_def)
  have dist: "distinct (map (level_offset g4) E)"
    using level_offsets_distinct [OF d4(1)]
    by (simp add: E_def enabled_levels_def distinct_map_filter)
  text \<open>The music of every level after the first loop is its original music.\<close>
  from orig have "for_each (\<lambda>lv. assign_original_music_level d (fst lv) (snd lv))
      (level_list d) g3 = Some g4"
    by (simp add: assign_original_music_flat_eq level_list_upto [OF d3(1)])
  from assign_original_music_flat [OF this] level_offsets_distinct [OF d3(1)]
  have original: "get_original_music_for_level d (fst lv + 1) (snd lv + 1)
      = Some (music (level_states (ap_state g4) ! level_offset g4 lv))"
    if "lv \<in> set (level_list d)" for lv
    using that by (simp add: d4(3))
  text \<open>The pool holds the music of the enabled levels.\<close>
  from collect_music_pool_enabled [OF coll] d4(2)
  have pool: "pool = map (\<lambda>lv. music (level_states (ap_state g4) ! level_offset g4 lv)) E"
    by (simp add: E)
  text \<open>The draws empty the pool into the enabled levels.\<close>
  from shuffle_music_enabled [OF sh]
  have "for_each (\<lambda>lv. shuffle_music_level p (fst lv) (snd lv)) E (pool, g4) = Some (pool', g')"
    by (simp add: E)
  from shuffle_music_flat [OF this] dist
  have drawn: "mset (map (\<lambda>lv. music (level_states (ap_state g') ! level_offset g4 lv)) E)
      + mset pool' = mset pool"
    by simp
  then have "size (mset (map (\<lambda>lv. music (level_states (ap_state g') ! level_offset g4 lv)) E)
      + mset pool') = size (mset pool)"
    by simp
  then have "pool' = []"
    by (simp add: pool)
  with drawn have "mset (map (\<lambda>lv. music (level_states (ap_state g') ! level_offset g4 lv)) E)
      = mset (map (\<lambda>lv. music (level_states (ap_state g4) ! level_offset g4 lv)) E)"
    by (simp add: pool)
  then have "image_mset Some
        (mset (map (\<lambda>lv. music (level_states (ap_state g') ! level_offset g4 lv)) E))
      = image_mset Some
        (mset (map (\<lambda>lv. music (level_states (ap_state g4) ! level_offset g4 lv)) E))"
    by simp
  then have "mset (map (\<lambda>lv. Some (music (level_states (ap_state g') ! level_offset g4 lv))) E)
      = mset (map (\<lambda>lv. Some (music (level_states (ap_state g4) ! level_offset g4 lv))) E)"
    by (simp add: multiset.map_comp comp_def)
  also have "map (\<lambda>lv. Some (music (level_states (ap_state g4) ! level_offset g4 lv))) E
      = map (\<lambda>lv. get_original_music_for_level d (fst lv + 1) (snd lv + 1)) E"
    using sub original by (intro map_cong) auto
  finally show ?thesis
    by (simp add: E_def off)
qed


theorem music_shuffle_permutes_enabled_originals_witness:
  "(case apdoom_init_randomization demo_platform demo_defs demo_seeded_music of
      None \<Rightarrow> False
    | Some g' \<Rightarrow>
        mset (map (\<lambda>lv. Some (music (level_states (ap_state g') ! level_offset g' lv)))
               (enabled_levels demo_defs g'))
          = mset (map (\<lambda>lv. get_original_music_for_level demo_defs (fst lv + 1) (snd lv + 1))
               (enabled_levels demo_defs g'))
        \<and> map (\<lambda>lv. get_original_music_for_level demo_defs (fst lv + 1) (snd lv + 1))
               (enabled_levels demo_defs g') = [Some 1, Some 2]
        \<and> map (\<lambda>lv. music (level_states (ap_state g') ! level_offset g' lv))
               (enabled_levels demo_defs g') = [2, 1])"
proof -
  have "map_option (\<lambda>g'.
        (map (\<lambda>lv. get_original_music_for_level demo_defs (fst lv + 1) (snd lv + 1))
           (enabled_levels demo_defs g'),
         map (\<lambda>lv. music (level_states (ap_state g') ! level_offset g' lv))
           (enabled_levels demo_defs g')))
      (apdoom_init_randomization demo_platform demo_defs demo_seeded_music)
        = Some ([Some 1, Some 2], [2, 1])"
    by code_simp
  then obtain g' where
    run: "apdoom_init_randomization demo_platform demo_defs demo_seeded_music = Some g'"
    and orig: "map (\<lambda>lv. get_original_music_for_level demo_defs (fst lv + 1) (snd lv + 1))
           (enabled_levels demo_defs g') = [Some 1, Some 2]"
    and final: "map (\<lambda>lv. music (level_states (ap_state g') ! level_offset g' lv))
           (enabled_levels demo_defs g') = [2, 1]"
    by auto
  have dims: "dims_ok demo_defs demo_seeded_music"
    by code_simp
  have mode: "random_music (ap_state demo_seeded_music) = 1"
    by code_simp
  from music_shuffle_permutes_enabled_originals [OF dims mode run] orig final
  show ?thesis
    by (simp only: run option.case)
qed

section \<open>The state file read back\<close>

lemma upto_count_Suc:
  "upto_count (int (Suc k)) = upto_count (int k) @ [int k]"
  by (simp add: upto_count_def del: of_nat_Suc)

lemma upto_count_nat:
  "upto_count n = upto_count (int (nat n))"
  by (simp add: upto_count_def)

lemma set_upto_count:
  "set (upto_count n) = {i. 0 \<le> i \<and> i < n}"
proof -
  have "i \<in> int ` {0..<nat n} \<longleftrightarrow> 0 \<le> i \<and> i < n" for i
  proof
    assume "i \<in> int ` {0..<nat n}"
    then show "0 \<le> i \<and> i < n" by auto
  next
    assume "0 \<le> i \<and> i < n"
    then have "i = int (nat i)" "nat i \<in> {0..<nat n}" by auto
    then show "i \<in> int ` {0..<nat n}" by (rule image_eqI)
  qed
  then show ?thesis by (auto simp: upto_count_def)
qed

lemma distinct_upto_count:
  "distinct (upto_count n)"
  by (simp add: upto_count_def distinct_map inj_on_def)

subsection \<open>The JSON values\<close>

lemma json_set_member:
  assumes "json_set j k v = Some j'"
  shows "json_member j' k' = (if k' = k then Some v else json_member j k')"
  using assms
  by (cases j) (auto simp: json_set_def json_member_def update_conv' split: option.splits)

lemma json_get_int_JInt:
  "is_c_int v \<Longrightarrow> json_get_int (JInt v) old = Some v"
  by (simp add: json_get_int_def isInt_def asInt_def c_int_def is_c_int_def)

lemma json_get_bool_or_JInt:
  "is_c_int v \<Longrightarrow> json_get_bool_or (JInt v) old = Some (old OR v)"
  by (simp add: json_get_bool_or_def isInt_def asInt_def c_int_def is_c_int_def)

lemma json_get_int_JNull:
  "json_get_int JNull old = Some old"
  by (simp add: json_get_int_def isInt_def)

subsection \<open>The loops\<close>

text \<open>A loop that appends one value for each item.\<close>

lemma for_each_collect:
  assumes "for_each (\<lambda>x acc. do { v \<leftarrow> rd x; Some (acc @ [mk v]) }) items acc0 = Some acc"
  shows "\<exists>vs. acc = acc0 @ map mk vs \<and> list_all2 (\<lambda>x v. rd x = Some v) items vs"
  using assms
proof (induction items arbitrary: acc0)
  case Nil
  then show ?case by simp
next
  case (Cons x items)
  from Cons.prems obtain v where
    v: "rd x = Some v"
    and rest: "for_each (\<lambda>x acc. do { v \<leftarrow> rd x; Some (acc @ [mk v]) }) items (acc0 @ [mk v])
      = Some acc"
    by (auto simp: bind_eq_Some_conv split: option.splits)
  from Cons.IH [OF rest] obtain vs where
    "acc = (acc0 @ [mk v]) @ map mk vs" "list_all2 (\<lambda>x v. rd x = Some v) items vs"
    by blast
  with v have "acc = acc0 @ map mk (v # vs) \<and> list_all2 (\<lambda>x v. rd x = Some v) (x # items) (v # vs)"
    by simp
  then show ?case by blast
qed

text \<open>A loop that rewrites one element of an array for each item, at distinct places.\<close>

lemma for_each_pointwise:
  assumes "for_each (\<lambda>x xs. do {
        old \<leftarrow> arr_get xs (pos x);
        v \<leftarrow> new x old;
        arr_set xs (pos x) v
      }) items xs = Some xs'"
  shows "length xs' = length xs
    \<and> (\<forall>x\<in>set items. 0 \<le> pos x \<and> nat (pos x) < length xs)
    \<and> (\<forall>j. j \<notin> (\<lambda>x. nat (pos x)) ` set items \<longrightarrow> xs' ! j = xs ! j)
    \<and> (distinct (map pos items) \<longrightarrow>
          (\<forall>x\<in>set items. new x (xs ! nat (pos x)) = Some (xs' ! nat (pos x))))"
  using assms
proof (induction items arbitrary: xs)
  case Nil
  then show ?case by simp
next
  case (Cons x items)
  from Cons.prems obtain v xs1 where
    r: "0 \<le> pos x" "nat (pos x) < length xs"
    and v: "new x (xs ! nat (pos x)) = Some v"
    and xs1: "xs1 = xs[nat (pos x) := v]"
    and rest: "for_each (\<lambda>x xs. do {
        old \<leftarrow> arr_get xs (pos x);
        v \<leftarrow> new x old;
        arr_set xs (pos x) v
      }) items xs1 = Some xs'"
    by (auto simp: bind_eq_Some_conv arr_get_def arr_set_def split: option.splits if_splits)
  note ih = Cons.IH [OF rest]
  have len: "length xs' = length xs"
    using ih by (simp add: xs1)
  have rng: "\<forall>y\<in>set (x # items). 0 \<le> pos y \<and> nat (pos y) < length xs"
    using ih r by (simp add: xs1)
  have out: "xs' ! j = xs ! j" if "j \<notin> (\<lambda>x. nat (pos x)) ` set (x # items)" for j
    using ih that by (simp add: xs1)
  have at: "new y (xs ! nat (pos y)) = Some (xs' ! nat (pos y))"
    if d: "distinct (map pos (x # items))" and y: "y \<in> set (x # items)" for y
  proof (cases "y \<in> set items")
    case True
    with d have "pos y \<noteq> pos x" by (auto simp: image_iff)
    moreover from True ih have "0 \<le> pos y" by blast
    ultimately have "nat (pos y) \<noteq> nat (pos x)"
      using r(1) by simp
    then have same: "xs1 ! nat (pos y) = xs ! nat (pos y)"
      by (simp add: xs1)
    from d have "distinct (map pos items)" by simp
    with ih True have "new y (xs1 ! nat (pos y)) = Some (xs' ! nat (pos y))"
      by blast
    then show ?thesis by (simp only: same)
  next
    case False
    with y have yx: "y = x" by simp
    have "nat (pos x) \<notin> (\<lambda>x. nat (pos x)) ` set items"
    proof
      assume "nat (pos x) \<in> (\<lambda>x. nat (pos x)) ` set items"
      then obtain z where z: "z \<in> set items" "nat (pos z) = nat (pos x)" by auto
      with ih have "0 \<le> pos z" by blast
      with z(2) r(1) have "pos z = pos x" by simp
      with z(1) d show False by (auto simp: image_iff)
    qed
    with ih have "xs' ! nat (pos x) = xs1 ! nat (pos x)" by blast
    with r v yx show ?thesis by (simp add: xs1)
  qed
  from len rng out at show ?case by blast
qed

text \<open>The same over the first \<open>n\<close> indices.\<close>

lemma for_each_indices:
  assumes "for_each (\<lambda>i xs. do {
        old \<leftarrow> arr_get xs i;
        v \<leftarrow> new i old;
        arr_set xs i v
      }) (upto_count n) xs = Some xs'"
  shows "length xs' = length xs"
    and "\<And>i. i < nat n \<Longrightarrow> i < length xs \<and> new (int i) (xs ! i) = Some (xs' ! i)"
    and "\<And>i. nat n \<le> i \<Longrightarrow> xs' ! i = xs ! i"
proof -
  note main = for_each_pointwise [where pos = "\<lambda>i. i" and new = new, OF assms]
  show "length xs' = length xs"
    using main by simp
  show "i < length xs \<and> new (int i) (xs ! i) = Some (xs' ! i)" if "i < nat n" for i
  proof -
    from that have "int i \<in> set (upto_count n)"
      by (simp add: set_upto_count)
    moreover have "distinct (map (\<lambda>i. i) (upto_count n))"
      using distinct_upto_count [of n] by simp
    ultimately have "0 \<le> int i \<and> nat (int i) < length xs
        \<and> new (int i) (xs ! nat (int i)) = Some (xs' ! nat (int i))"
      using main by blast
    then show ?thesis by simp
  qed
  show "xs' ! i = xs ! i" if "nat n \<le> i" for i
  proof -
    have "i \<notin> nat ` set (upto_count n)"
      using that by (auto simp: set_upto_count)
    with main show ?thesis by simp
  qed
qed

lemma for_each_both:
  assumes "for_each (\<lambda>i s. do { a \<leftarrow> f i (fst s); b \<leftarrow> h i (snd s); Some (a, b) }) items s
      = Some s'"
  shows "for_each f items (fst s) = Some (fst s') \<and> for_each h items (snd s) = Some (snd s')"
  using assms
proof (induction items arbitrary: s)
  case Nil
  then show ?case by simp
next
  case (Cons i items)
  from Cons.prems obtain a b where
    "f i (fst s) = Some a" "h i (snd s) = Some b"
    "for_each (\<lambda>i s. do { a \<leftarrow> f i (fst s); b \<leftarrow> h i (snd s); Some (a, b) }) items (a, b)
      = Some s'"
    by (auto simp: bind_eq_Some_conv split: option.splits)
  with Cons.IH [of "(a, b)"] show ?case by simp
qed


lemma load_elements:
  assumes "for_each (load_element jarr get) (upto_count n) xs = Some xs'"
  shows "length xs' = length xs"
    and "\<And>i. i < nat n \<Longrightarrow> i < length xs \<and> load_value jarr get (int i) (xs ! i) = Some (xs' ! i)"
    and "\<And>i. nat n \<le> i \<Longrightarrow> xs' ! i = xs ! i"
  using for_each_indices [where new = "load_value jarr get" and n = n and xs = xs and xs' = xs']
    assms
  unfolding load_element_def by blast+

text \<open>The first \<open>n\<close> entries of an array, read one by one.\<close>

lemma arr_get_all:
  assumes "list_all2 (\<lambda>i v. arr_get arr i = Some v) (upto_count n) vs"
  shows "vs = take (nat n) arr" and "nat n \<le> length arr"
proof -
  have len: "length vs = nat n"
    using list_all2_lengthD [OF assms] by (simp add: upto_count_def)
  have at: "i < length arr \<and> vs ! i = arr ! i" if "i < nat n" for i
  proof -
    from that have "upto_count n ! i = int i"
      by (simp add: upto_count_def)
    moreover from that have "i < length (upto_count n)"
      by (simp add: upto_count_def)
    ultimately have "arr_get arr (int i) = Some (vs ! i)"
      using list_all2_nthD [OF assms, of i] by simp
    then show ?thesis
      by (auto simp: arr_get_def split: if_splits)
  qed
  show le: "nat n \<le> length arr"
  proof (cases "nat n")
    case 0
    then show ?thesis by simp
  next
    case (Suc k)
    with at [of k] show ?thesis by simp
  qed
  show "vs = take (nat n) arr"
    using len le at by (intro nth_equalityI) simp_all
qed

subsection \<open>What \<^verbatim>\<open>save_state\<close> writes\<close>

lemma json_int_array_Some:
  assumes "json_int_array arr n = Some js"
  shows "js = map JInt (take (nat n) arr)" and "nat n \<le> length arr"
proof -
  from assms for_each_collect [where rd = "arr_get arr" and mk = JInt and acc = js
      and items = "upto_count n" and ?acc0.0 = "[]"]
  obtain vs where vs: "js = map JInt vs"
    "list_all2 (\<lambda>i v. arr_get arr i = Some v) (upto_count n) vs"
    unfolding json_int_array_def by auto
  from arr_get_all [OF vs(2)] vs(1)
  show "js = map JInt (take (nat n) arr)" and "nat n \<le> length arr"
    by simp_all
qed

lemma json_index_saved:
  assumes "i < length js"
  shows "json_index (JArray js) (int i) = Some (js ! i)"
  using assms by (simp add: json_index_def)

lemma load_saved_ints:
  assumes save: "json_int_array arr n = Some js"
    and ints: "list_all is_c_int arr"
    and load: "for_each (load_element (Some (JArray js)) json_get_int) (upto_count n) xs = Some xs'"
    and i: "i < nat n"
  shows "xs' ! i = arr ! i"
proof -
  note js = json_int_array_Some [OF save]
  from i js have "json_index (JArray js) (int i) = Some (JInt (arr ! i))"
    by (simp add: json_index_def)
  moreover from ints i js(2) have "is_c_int (arr ! i)"
    by (simp add: list_all_length)
  ultimately have "load_value (Some (JArray js)) json_get_int (int i) (xs ! i) = Some (arr ! i)"
    by (simp add: load_value_def json_get_int_JInt)
  with load_elements(2) [OF load i] show ?thesis by simp
qed

lemma load_saved_flags:
  assumes save: "json_int_array arr n = Some js"
    and ints: "list_all is_c_int arr"
    and load: "for_each (load_element (Some (JArray js)) json_get_bool_or) (upto_count n) xs
        = Some xs'"
    and i: "i < nat n"
  shows "xs' ! i = xs ! i OR arr ! i"
proof -
  note js = json_int_array_Some [OF save]
  from i js have "json_index (JArray js) (int i) = Some (JInt (arr ! i))"
    by (simp add: json_index_def)
  moreover from ints i js(2) have "is_c_int (arr ! i)"
    by (simp add: list_all_length)
  ultimately have "load_value (Some (JArray js)) json_get_bool_or (int i) (xs ! i)
      = Some (xs ! i OR arr ! i)"
    by (simp add: load_value_def json_get_bool_or_JInt)
  with load_elements(2) [OF load i] show ?thesis by simp
qed

text \<open>The inventory slots written.\<close>

lemma for_each_collect_unless:
  assumes "for_each (\<lambda>x acc. do {
        v \<leftarrow> rd x;
        if skip v then Some acc else Some (acc @ [mk v])
      }) items acc0 = Some acc"
  shows "\<exists>vs. acc = acc0 @ map mk (filter (\<lambda>v. \<not> skip v) vs)
    \<and> list_all2 (\<lambda>x v. rd x = Some v) items vs"
  using assms
proof (induction items arbitrary: acc0)
  case Nil
  then show ?case by simp
next
  case (Cons x items)
  from Cons.prems obtain v where
    v: "rd x = Some v"
    and rest: "for_each (\<lambda>x acc. do {
        v \<leftarrow> rd x;
        if skip v then Some acc else Some (acc @ [mk v])
      }) items (if skip v then acc0 else acc0 @ [mk v]) = Some acc"
    by (auto simp: bind_eq_Some_conv split: option.splits if_splits)
  from Cons.IH [OF rest] obtain vs where
    "acc = (if skip v then acc0 else acc0 @ [mk v]) @ map mk (filter (\<lambda>v. \<not> skip v) vs)"
    "list_all2 (\<lambda>x v. rd x = Some v) items vs"
    by blast
  with v have "acc = acc0 @ map mk (filter (\<lambda>v. \<not> skip v) (v # vs))
      \<and> list_all2 (\<lambda>x v. rd x = Some v) (x # items) (v # vs)"
    by simp
  then show ?case by blast
qed

lemma json_inventory_Some:
  assumes "json_inventory g = Some js"
  shows "js = map (\<lambda>slot. JObject [(''type'', JInt (inv_type slot)),
                                   (''count'', JInt (inv_count slot))]) (saved_slots g)"
proof -
  have "json_inventory g =
      for_each (\<lambda>i acc. do {
          slot \<leftarrow> arr_get (inventory (player_state (ap_state g))) i;
          if inv_type slot = 9 then Some acc
          else Some (acc @ [JObject [(''type'', JInt (inv_type slot)),
                                     (''count'', JInt (inv_count slot))]])
        }) (upto_count (ap_inventory_count g)) []"
    by (simp add: json_inventory_def json_set_def cong: if_cong)
  with assms for_each_collect_unless
    [where rd = "arr_get (inventory (player_state (ap_state g)))"
      and skip = "\<lambda>slot. inv_type slot = 9"
      and mk = "\<lambda>slot. JObject [(''type'', JInt (inv_type slot)),
                                  (''count'', JInt (inv_count slot))]"
      and items = "upto_count (ap_inventory_count g)" and ?acc0.0 = "[]" and acc = js]
  obtain vs where vs:
    "js = map (\<lambda>slot. JObject [(''type'', JInt (inv_type slot)),
                                (''count'', JInt (inv_count slot))])
           (filter (\<lambda>slot. inv_type slot \<noteq> 9) vs)"
    "list_all2 (\<lambda>i v. arr_get (inventory (player_state (ap_state g))) i = Some v)
       (upto_count (ap_inventory_count g)) vs"
    by auto
  from arr_get_all(1) [OF vs(2)] vs(1) show ?thesis
    by (simp add: saved_slots_def)
qed


lemma json_player_members:
  assumes "json_player g = Some player"
  shows "json_member player ''health'' = Some (JInt (health (player_state (ap_state g))))"
    and "json_member player ''armor_points''
      = Some (JInt (armor_points (player_state (ap_state g))))"
    and "json_member player ''armor_type'' = Some (JInt (armor_type (player_state (ap_state g))))"
    and "json_member player ''ready_weapon''
      = Some (JInt (ready_weapon (player_state (ap_state g))))"
    and "json_member player ''kill_count'' = Some (JInt (kill_count (player_state (ap_state g))))"
    and "json_member player ''item_count'' = Some (JInt (item_count (player_state (ap_state g))))"
    and "json_member player ''secret_count''
      = Some (JInt (secret_count (player_state (ap_state g))))"
    and "\<exists>js. json_int_array (powers (player_state (ap_state g))) (ap_powerup_count g) = Some js
      \<and> json_member player ''powers'' = Some (JArray js)"
    and "\<exists>js. json_int_array (weapon_owned (player_state (ap_state g))) (ap_weapon_count g)
        = Some js
      \<and> json_member player ''weapon_owned'' = Some (JArray js)"
    and "\<exists>js. json_int_array (ammo (player_state (ap_state g))) (ap_ammo_count g) = Some js
      \<and> json_member player ''ammo'' = Some (JArray js)"
    and "\<exists>js. json_int_array (max_ammo (player_state (ap_state g))) (ap_ammo_count g) = Some js
      \<and> json_member player ''max_ammo'' = Some (JArray js)"
    and "\<exists>js. json_inventory g = Some js
      \<and> json_member player ''inventory'' = Some (JArray js)"
  using assms
  by (auto simp: json_player_def Let_def json_set_def json_member_def update_conv'
      split: Option.bind_splits)

lemma save_state_members:
  assumes "save_state d g = Some file"
  shows "\<exists>player. json_player g = Some player \<and> json_member file ''player'' = Some player"
    and "\<exists>eps. json_episodes d g = Some eps
      \<and> json_member file ''episodes'' = Some (JArray eps)"
    and "json_member file ''item_queue'' = Some (JArray (map JInt (ap_item_queue g)))"
    and "json_member file ''ep'' = Some (JInt (state_ep (ap_state g)))"
    and "json_member file ''map'' = Some (JInt (state_map (ap_state g)))"
    and "json_member file ''progressive_locations''
      = Some (if ap_progressive_locations g = [] then JNull
              else JArray (map JInt (ap_progressive_locations g)))"
    and "json_member file ''victory'' = Some (JInt (victory (ap_state g)))"
  using assms
  by (auto simp: save_state_def json_set_def json_member_def update_conv'
      split: Option.bind_splits if_splits)


subsection \<open>The player read back\<close>

lemma load_inventory_slot_saved:
  assumes inv: "json_member2 file ''player'' ''inventory''
      = Some (JArray (map (\<lambda>slot. JObject [(''type'', JInt (inv_type slot)),
                                   (''count'', JInt (inv_count slot))]) (saved_slots g)))"
    and ints: "state_ints_ok g"
  shows "load_inventory_slot file (int i) old
    = Some (if i < length (saved_slots g) then saved_slots g ! i else old)"
proof (cases "i < length (saved_slots g)")
  case True
  then have "saved_slots g ! i \<in> set (saved_slots g)"
    by simp
  then have "saved_slots g ! i \<in> set (inventory (player_state (ap_state g)))"
    by (auto simp: saved_slots_def dest: in_set_takeD)
  with ints have "is_c_int (inv_type (saved_slots g ! i))" "is_c_int (inv_count (saved_slots g ! i))"
    by (auto simp: state_ints_ok_def Let_def list_all_iff)
  with True show ?thesis
    by (simp add: load_inventory_slot_def inv json_index_def json_member_def json_get_int_JInt)
next
  case False
  then show ?thesis
    by (simp add: load_inventory_slot_def inv json_index_def json_member_def json_get_int_JNull)
qed

lemma load_player_state_saved:
  assumes player: "json_player g = Some player"
    and fmem: "json_member file ''player'' = Some player"
    and ints: "state_ints_ok g"
    and counts: "ap_powerup_count f = ap_powerup_count g" "ap_weapon_count f = ap_weapon_count g"
      "ap_ammo_count f = ap_ammo_count g" "ap_inventory_count f = ap_inventory_count g"
    and load: "load_player_state file f = Some ps'"
  shows "health ps' = health (player_state (ap_state g))"
    and "armor_points ps' = armor_points (player_state (ap_state g))"
    and "armor_type ps' = armor_type (player_state (ap_state g))"
    and "ready_weapon ps' = ready_weapon (player_state (ap_state g))"
    and "kill_count ps' = kill_count (player_state (ap_state g))"
    and "item_count ps' = item_count (player_state (ap_state g))"
    and "secret_count ps' = secret_count (player_state (ap_state g))"
    and "capacity_upgrades ps' = capacity_upgrades (player_state (ap_state f))"
    and "\<And>i. i < nat (ap_powerup_count g) \<Longrightarrow>
      powers ps' ! i = powers (player_state (ap_state g)) ! i"
    and "\<And>i. i < nat (ap_weapon_count g) \<Longrightarrow>
      weapon_owned ps' ! i = weapon_owned (player_state (ap_state f)) ! i
        OR weapon_owned (player_state (ap_state g)) ! i"
    and "\<And>i. i < nat (ap_ammo_count g) \<Longrightarrow>
      ammo ps' ! i = ammo (player_state (ap_state g)) ! i
      \<and> max_ammo ps' ! i = max_ammo (player_state (ap_state g)) ! i"
    and "\<And>i. i < nat (ap_inventory_count g) \<Longrightarrow>
      inventory ps' ! i = (if i < length (saved_slots g) then saved_slots g ! i
                           else inventory (player_state (ap_state f)) ! i)"
proof -
  let ?pg = "player_state (ap_state g)" and ?pf = "player_state (ap_state f)"
  have m2: "json_member2 file ''player'' k = json_member player k" for k
    by (simp add: json_member2_def fmem)
  note members = json_player_members [OF player]
  from members(8) obtain jp where
    jp: "json_int_array (powers ?pg) (ap_powerup_count g) = Some jp"
      "json_member player ''powers'' = Some (JArray jp)" by blast
  from members(9) obtain jw where
    jw: "json_int_array (weapon_owned ?pg) (ap_weapon_count g) = Some jw"
      "json_member player ''weapon_owned'' = Some (JArray jw)" by blast
  from members(10) obtain ja where
    ja: "json_int_array (ammo ?pg) (ap_ammo_count g) = Some ja"
      "json_member player ''ammo'' = Some (JArray ja)" by blast
  from members(11) obtain jm where
    jm: "json_int_array (max_ammo ?pg) (ap_ammo_count g) = Some jm"
      "json_member player ''max_ammo'' = Some (JArray jm)" by blast
  from members(12) obtain ji where
    ji: "json_inventory g = Some ji" "json_member player ''inventory'' = Some (JArray ji)"
    by blast
  have scalars: "is_c_int (health ?pg)" "is_c_int (armor_points ?pg)" "is_c_int (armor_type ?pg)"
    "is_c_int (ready_weapon ?pg)" "is_c_int (kill_count ?pg)" "is_c_int (item_count ?pg)"
    "is_c_int (secret_count ?pg)"
    and arrays: "list_all is_c_int (powers ?pg)" "list_all is_c_int (weapon_owned ?pg)"
    "list_all is_c_int (ammo ?pg)" "list_all is_c_int (max_ammo ?pg)"
    using ints by (simp_all add: state_ints_ok_def Let_def)
  from load obtain vp vw vam vi where
    vp: "for_each (load_element (Some (JArray jp)) json_get_int)
          (upto_count (ap_powerup_count g)) (powers ?pf) = Some vp"
    and vw: "for_each (load_element (Some (JArray jw)) json_get_bool_or)
          (upto_count (ap_weapon_count g)) (weapon_owned ?pf) = Some vw"
    and vam: "for_each (\<lambda>i am. do {
         a \<leftarrow> load_element (Some (JArray ja)) json_get_int i (fst am);
         m \<leftarrow> load_element (Some (JArray jm)) json_get_int i (snd am);
         Some (a, m)
       }) (upto_count (ap_ammo_count g)) (ammo ?pf, max_ammo ?pf) = Some vam"
    and vi: "for_each (\<lambda>i inv. do {
         old \<leftarrow> arr_get inv i;
         slot \<leftarrow> load_inventory_slot file i old;
         arr_set inv i slot
       }) (upto_count (ap_inventory_count g)) (inventory ?pf) = Some vi"
    and ps': "ps' = ?pf\<lparr>health := health ?pg, armor_points := armor_points ?pg,
       armor_type := armor_type ?pg, ready_weapon := ready_weapon ?pg,
       kill_count := kill_count ?pg, item_count := item_count ?pg,
       secret_count := secret_count ?pg, powers := vp, weapon_owned := vw,
       ammo := fst vam, max_ammo := snd vam, inventory := vi\<rparr>"
    by (auto simp: load_player_state_def Let_def m2 members(1-7) jp(2) jw(2) ja(2) jm(2)
        json_get_int_JInt scalars counts bind_eq_Some_conv)
  show "health ps' = health ?pg" "armor_points ps' = armor_points ?pg"
    "armor_type ps' = armor_type ?pg" "ready_weapon ps' = ready_weapon ?pg"
    "kill_count ps' = kill_count ?pg" "item_count ps' = item_count ?pg"
    "secret_count ps' = secret_count ?pg" "capacity_upgrades ps' = capacity_upgrades ?pf"
    by (simp_all add: ps')
  show "powers ps' ! i = powers ?pg ! i" if "i < nat (ap_powerup_count g)" for i
    using load_saved_ints [OF jp(1) arrays(1) vp that] by (simp add: ps')
  show "weapon_owned ps' ! i = weapon_owned ?pf ! i OR weapon_owned ?pg ! i"
    if "i < nat (ap_weapon_count g)" for i
    using load_saved_flags [OF jw(1) arrays(2) vw that] by (simp add: ps')
  show "ammo ps' ! i = ammo ?pg ! i \<and> max_ammo ps' ! i = max_ammo ?pg ! i"
    if "i < nat (ap_ammo_count g)" for i
  proof -
    from for_each_both [OF vam]
    have a: "for_each (load_element (Some (JArray ja)) json_get_int)
          (upto_count (ap_ammo_count g)) (ammo ?pf) = Some (fst vam)"
      and m: "for_each (load_element (Some (JArray jm)) json_get_int)
          (upto_count (ap_ammo_count g)) (max_ammo ?pf) = Some (snd vam)"
      by simp_all
    from load_saved_ints [OF ja(1) arrays(3) a that] load_saved_ints [OF jm(1) arrays(4) m that]
    show ?thesis by (simp add: ps')
  qed
  show "inventory ps' ! i = (if i < length (saved_slots g) then saved_slots g ! i
                           else inventory ?pf ! i)"
    if "i < nat (ap_inventory_count g)" for i
  proof -
    have "json_member2 file ''player'' ''inventory''
      = Some (JArray (map (\<lambda>slot. JObject [(''type'', JInt (inv_type slot)),
                                   (''count'', JInt (inv_count slot))]) (saved_slots g)))"
      using json_inventory_Some [OF ji(1)] ji(2) by (simp add: m2)
    from load_inventory_slot_saved [OF this ints]
      for_each_indices(2) [where new = "load_inventory_slot file", OF vi that]
    show ?thesis by (simp add: ps')
  qed
qed


subsection \<open>The levels read back\<close>

lemma serialize_level_members:
  assumes "serialize_level g ep mp = Some l"
  shows "\<exists>a. level_state_at g (ap_get_level_state g \<lparr>idx_ep = ep - 1, idx_map = mp - 1\<rparr>) = Some a
    \<and> 3 \<le> length (keys a)
    \<and> json_member l ''completed'' = Some (JInt (completed a))
    \<and> json_member l ''keys0'' = Some (JInt (keys a ! 0))
    \<and> json_member l ''keys1'' = Some (JInt (keys a ! 1))
    \<and> json_member l ''keys2'' = Some (JInt (keys a ! 2))
    \<and> json_member l ''has_map'' = Some (JInt (has_map a))
    \<and> json_member l ''unlocked'' = Some (JInt (unlocked a))
    \<and> json_member l ''special'' = Some (JInt (special a))"
  using assms
  by (auto simp: serialize_level_def json_set_def json_member_def update_conv' arr_get_def
      split: Option.bind_splits if_splits)

lemma upto_count_nth:
  assumes "0 \<le> i" and "i < n"
  shows "nat i < length (upto_count n)" and "upto_count n ! nat i = i"
  using assms by (simp_all add: upto_count_def)

lemma json_episodes_level:
  assumes save: "json_episodes d g = Some eps"
    and i: "0 \<le> i" "i < ap_episode_count g"
    and j: "0 \<le> j" "j < ap_get_map_count d (i + 1)"
  shows "\<exists>ep l. json_index (JArray eps) i = Some ep \<and> json_index ep j = Some l
    \<and> serialize_level g (i + 1) (j + 1) = Some l"
proof -
  from save for_each_collect
    [where rd = "\<lambda>i. for_each (\<lambda>j levels. do {
               l \<leftarrow> serialize_level g (i + 1) (j + 1);
               Some (levels @ [l])
             }) (upto_count (ap_get_map_count d (i + 1))) []"
      and mk = JArray and items = "upto_count (ap_episode_count g)" and ?acc0.0 = "[]"
      and acc = eps]
  obtain vss where eps: "eps = map JArray vss"
    and outer: "list_all2 (\<lambda>i vs. for_each (\<lambda>j levels. do {
               l \<leftarrow> serialize_level g (i + 1) (j + 1);
               Some (levels @ [l])
             }) (upto_count (ap_get_map_count d (i + 1))) [] = Some vs)
        (upto_count (ap_episode_count g)) vss"
    unfolding json_episodes_def by auto
  note ni = upto_count_nth [OF i]
  from list_all2_lengthD [OF outer] ni(1) have li: "nat i < length vss"
    by simp
  from list_all2_nthD [OF outer ni(1)] ni(2)
  have inner: "for_each (\<lambda>j levels. do {
               l \<leftarrow> serialize_level g (i + 1) (j + 1);
               Some (levels @ [l])
             }) (upto_count (ap_get_map_count d (i + 1))) [] = Some (vss ! nat i)"
    by simp
  from inner for_each_collect
    [where rd = "\<lambda>j. serialize_level g (i + 1) (j + 1)" and mk = "\<lambda>l. l"
      and items = "upto_count (ap_get_map_count d (i + 1))" and ?acc0.0 = "[]"
      and acc = "vss ! nat i"]
  obtain vs where vs: "vss ! nat i = vs"
    and levels: "list_all2 (\<lambda>j l. serialize_level g (i + 1) (j + 1) = Some l)
        (upto_count (ap_get_map_count d (i + 1))) vs"
    by auto
  note nj = upto_count_nth [OF j]
  from list_all2_lengthD [OF levels] nj(1) have lj: "nat j < length vs"
    by simp
  from list_all2_nthD [OF levels nj(1)] nj(2)
  have l: "serialize_level g (i + 1) (j + 1) = Some (vs ! nat j)"
    by simp
  have "json_index (JArray eps) i = Some (JArray vs)"
    using i li vs by (simp add: json_index_def eps)
  moreover have "json_index (JArray vs) j = Some (vs ! nat j)"
    using j lj by (simp add: json_index_def)
  ultimately show ?thesis
    using l by blast
qed

lemma load_level_fields_saved:
  assumes eps: "json_member file ''episodes'' = Some (JArray eps)"
    and ep: "json_index (JArray eps) i = Some ep"
    and l: "json_index ep j = Some l"
    and members: "json_member l ''completed'' = Some (JInt (completed a))"
      "json_member l ''keys0'' = Some (JInt (keys a ! 0))"
      "json_member l ''keys1'' = Some (JInt (keys a ! 1))"
      "json_member l ''keys2'' = Some (JInt (keys a ! 2))"
      "json_member l ''has_map'' = Some (JInt (has_map a))"
      "json_member l ''unlocked'' = Some (JInt (unlocked a))"
      "json_member l ''special'' = Some (JInt (special a))"
    and ints: "is_c_int (completed a)" "is_c_int (keys a ! 0)" "is_c_int (keys a ! 1)"
      "is_c_int (keys a ! 2)" "is_c_int (has_map a)" "is_c_int (unlocked a)"
      "is_c_int (special a)"
    and load: "load_level_fields file (i, j) b = Some c"
  shows "c = b\<lparr>completed := completed b OR completed a,
      keys := (keys b)[0 := keys b ! 0 OR keys a ! 0, 1 := keys b ! 1 OR keys a ! 1,
                       2 := keys b ! 2 OR keys a ! 2],
      has_map := has_map b OR has_map a, unlocked := unlocked b OR unlocked a,
      special := special b OR special a\<rparr>"
    and "3 \<le> length (keys b)"
proof -
  have flag: "load_level_flag file i j key old = json_get_bool_or v old"
    if "json_member l key = Some v" for key old v
    using that by (simp add: load_level_flag_def eps ep l)
  have flags:
    "load_level_flag file i j ''completed'' old = Some (old OR completed a)"
    "load_level_flag file i j ''keys0'' old = Some (old OR keys a ! 0)"
    "load_level_flag file i j ''keys1'' old = Some (old OR keys a ! 1)"
    "load_level_flag file i j ''keys2'' old = Some (old OR keys a ! 2)"
    "load_level_flag file i j ''has_map'' old = Some (old OR has_map a)"
    "load_level_flag file i j ''unlocked'' old = Some (old OR unlocked a)"
    "load_level_flag file i j ''special'' old = Some (old OR special a)" for old
    using members [THEN flag] ints [THEN json_get_bool_or_JInt] by simp_all
  from load show "c = b\<lparr>completed := completed b OR completed a,
      keys := (keys b)[0 := keys b ! 0 OR keys a ! 0, 1 := keys b ! 1 OR keys a ! 1,
                       2 := keys b ! 2 OR keys a ! 2],
      has_map := has_map b OR has_map a, unlocked := unlocked b OR unlocked a,
      special := special b OR special a\<rparr>"
    and "3 \<le> length (keys b)"
    by (auto simp: load_level_fields_def flags arr_get_def arr_set_def
        split: Option.bind_splits if_splits)
qed


lemma distinct_map_inner:
  "distinct (map (\<lambda>x. h (p x)) xs) \<Longrightarrow> distinct (map p xs)"
  by (induction xs) auto

lemma level_list_member:
  assumes "lv \<in> set (level_list d)"
  shows "0 \<le> fst lv" "fst lv < int (length (preloaded_level_info d))"
    "0 \<le> snd lv" "snd lv < ap_get_map_count d (fst lv + 1)"
  using assms by (auto simp: level_list_def set_upto_count)

lemma load_level_states_saved:
  assumes dg: "dims_ok d g" and df: "dims_ok d f"
    and ints: "state_ints_ok g"
    and save: "json_episodes d g = Some eps"
    and eps: "json_member file ''episodes'' = Some (JArray eps)"
    and load: "load_level_states d file f = Some lss"
    and lv: "lv \<in> set (level_list d)"
  shows "lss ! level_offset f lv =
      (level_states (ap_state f) ! level_offset f lv)\<lparr>
        completed := completed (level_states (ap_state f) ! level_offset f lv)
          OR completed (level_states (ap_state g) ! level_offset g lv),
        keys := (keys (level_states (ap_state f) ! level_offset f lv))
          [0 := keys (level_states (ap_state f) ! level_offset f lv) ! 0
                  OR keys (level_states (ap_state g) ! level_offset g lv) ! 0,
           1 := keys (level_states (ap_state f) ! level_offset f lv) ! 1
                  OR keys (level_states (ap_state g) ! level_offset g lv) ! 1,
           2 := keys (level_states (ap_state f) ! level_offset f lv) ! 2
                  OR keys (level_states (ap_state g) ! level_offset g lv) ! 2],
        has_map := has_map (level_states (ap_state f) ! level_offset f lv)
          OR has_map (level_states (ap_state g) ! level_offset g lv),
        unlocked := unlocked (level_states (ap_state f) ! level_offset f lv)
          OR unlocked (level_states (ap_state g) ! level_offset g lv),
        special := special (level_states (ap_state f) ! level_offset f lv)
          OR special (level_states (ap_state g) ! level_offset g lv)\<rparr>"
proof -
  let ?pos = "\<lambda>lv. fst lv * max_map_count f + snd lv"
  let ?a = "level_states (ap_state g) ! level_offset g lv"
  let ?b = "level_states (ap_state f) ! level_offset f lv"
  have body: "(\<lambda>lv. load_level file f (fst lv) (snd lv))
      = (\<lambda>lv xs. do {
          old \<leftarrow> arr_get xs (?pos lv);
          v \<leftarrow> load_level_fields file lv old;
          arr_set xs (?pos lv) v
        })"
    by (simp add: load_level_def ap_get_level_state_def fun_eq_iff)
  from load have "for_each (\<lambda>lv. load_level file f (fst lv) (snd lv))
      (level_list d) (level_states (ap_state f)) = Some lss"
    by (simp add: load_level_states_def for_each_nested level_list_upto [OF df, symmetric]
        levels_upto_def)
  then have flat: "for_each (\<lambda>lv xs. do {
          old \<leftarrow> arr_get xs (?pos lv);
          v \<leftarrow> load_level_fields file lv old;
          arr_set xs (?pos lv) v
        }) (level_list d) (level_states (ap_state f)) = Some lss"
    by (simp only: body)
  have "distinct (map (\<lambda>lv. nat (?pos lv)) (level_list d))"
    using level_offsets_distinct [OF df] by (simp add: level_offset_def [abs_def])
  then have dist: "distinct (map ?pos (level_list d))"
    by (rule distinct_map_inner)
  from for_each_pointwise [where pos = ?pos and new = "load_level_fields file", OF flat] dist lv
  have "load_level_fields file lv (level_states (ap_state f) ! nat (?pos lv))
      = Some (lss ! nat (?pos lv))"
    by blast
  then have fields: "load_level_fields file (fst lv, snd lv) ?b = Some (lss ! level_offset f lv)"
    by (simp add: level_offset_def)
  note m = level_list_member [OF lv]
  from dg m(2) have ep: "fst lv < ap_episode_count g"
    by (simp add: dims_ok_def)
  from json_episodes_level [OF save m(1) ep m(3,4)] obtain ep l where
    path: "json_index (JArray eps) (fst lv) = Some ep" "json_index ep (snd lv) = Some l"
    and l: "serialize_level g (fst lv + 1) (snd lv + 1) = Some l"
    by blast
  from serialize_level_members [OF l] obtain a where
    a: "level_state_at g (ap_get_level_state g \<lparr>idx_ep = fst lv + 1 - 1,
          idx_map = snd lv + 1 - 1\<rparr>) = Some a"
    and k: "3 \<le> length (keys a)"
    and members: "json_member l ''completed'' = Some (JInt (completed a))"
      "json_member l ''keys0'' = Some (JInt (keys a ! 0))"
      "json_member l ''keys1'' = Some (JInt (keys a ! 1))"
      "json_member l ''keys2'' = Some (JInt (keys a ! 2))"
      "json_member l ''has_map'' = Some (JInt (has_map a))"
      "json_member l ''unlocked'' = Some (JInt (unlocked a))"
      "json_member l ''special'' = Some (JInt (special a))"
    by blast
  from a have a_eq: "a = ?a" and a_in: "a \<in> set (level_states (ap_state g))"
    by (auto simp: level_state_at_def arr_get_def ap_get_level_state_def level_offset_def
        split: if_splits)
  from ints a_in have ia: "is_c_int (completed a)" "list_all is_c_int (keys a)"
    "is_c_int (has_map a)" "is_c_int (unlocked a)" "is_c_int (special a)"
    by (auto simp: state_ints_ok_def Let_def list_all_iff)
  from k have lens: "0 < length (keys a)" "1 < length (keys a)" "2 < length (keys a)"
    by linarith+
  from ia(2) lens [THEN nth_mem] have ik: "is_c_int (keys a ! 0)" "is_c_int (keys a ! 1)" "is_c_int (keys a ! 2)"
    unfolding list_all_iff by blast+
  from load_level_fields_saved(1) [OF eps path members ia(1) ik ia(3-5) fields]
  show ?thesis
    by (simp only: a_eq)
qed

text \<open>The queue and the set of the scouted locations.\<close>

lemma asInt64_JInt:
  "asInt64 (JInt v) = Some v"
  by (simp add: asInt64_def)

lemma load_item_queue:
  assumes "for_each (\<lambda>item_id_json q. do { v \<leftarrow> asInt64 item_id_json; Some (q @ [v]) })
      (map JInt xs) q0 = Some q"
  shows "q = q0 @ xs"
  using assms
proof (induction xs arbitrary: q0)
  case Nil
  then show ?case by simp
next
  case (Cons x xs)
  from Cons.prems have "for_each (\<lambda>item_id_json q. do { v \<leftarrow> asInt64 item_id_json; Some (q @ [v]) })
      (map JInt xs) (q0 @ [x]) = Some q"
    by (simp add: asInt64_JInt)
  from Cons.IH [OF this] show ?case by simp
qed

lemma load_progressive_locations:
  assumes "for_each (\<lambda>prog_json s. do { v \<leftarrow> asInt64 prog_json; Some (set_insert v s) })
      (map JInt xs) s0 = Some s"
  shows "set s = set s0 \<union> set xs"
  using assms
proof (induction xs arbitrary: s0)
  case Nil
  then show ?case by simp
next
  case (Cons x xs)
  from Cons.prems have "for_each (\<lambda>prog_json s. do { v \<leftarrow> asInt64 prog_json; Some (set_insert v s) })
      (map JInt xs) (set_insert x s0) = Some s"
    by (simp add: asInt64_JInt)
  from Cons.IH [OF this] show ?case
    by (auto simp: set_insert_def set_insort_key split: if_splits)
qed


section \<open>Saving and loading the session state\<close>

text \<open>
  C6.  \<^verbatim>\<open>save_state\<close> followed by \<^verbatim>\<open>load_state\<close> into a state \<open>f\<close> of the same game
  gives back the player's scalar fields, powers, ammunition and stored maximum
  ammunition as saved, the saved inventory slots (those of type 9 are not written),
  the current episode and map, the pending item queue appended to that of \<open>f\<close>, and
  the scouted locations added to those of \<open>f\<close>; owned weapons, the level flags
  \<^verbatim>\<open>completed\<close>, \<^verbatim>\<open>keys\<close>, \<^verbatim>\<open>has_map\<close>, \<^verbatim>\<open>unlocked\<close>, \<^verbatim>\<open>special\<close> and the victory flag
  are the bitwise disjunction of the saved value and the value of \<open>f\<close>, which is the
  saved value when \<open>f\<close> holds zero.  The checked locations of a level, their
  counter and the capacity upgrades are those of \<open>f\<close>: the maximum ammunition is read
  from the file, not recomputed.  The saved fields hold values of the type
  \<^verbatim>\<open>int\<close>, and both runs have a defined result.
\<close>

theorem save_load_round_trip:
  assumes dg: "dims_ok d g" and df: "dims_ok d f"
    and counts: "ap_powerup_count f = ap_powerup_count g" "ap_weapon_count f = ap_weapon_count g"
      "ap_ammo_count f = ap_ammo_count g" "ap_inventory_count f = ap_inventory_count g"
    and ints: "state_ints_ok g"
    and save: "save_state d g = Some file"
    and load: "load_state d (Some file) f = Some g'"
  shows "health (player_state (ap_state g')) = health (player_state (ap_state g))
    \<and> armor_points (player_state (ap_state g')) = armor_points (player_state (ap_state g))
    \<and> armor_type (player_state (ap_state g')) = armor_type (player_state (ap_state g))
    \<and> ready_weapon (player_state (ap_state g')) = ready_weapon (player_state (ap_state g))
    \<and> kill_count (player_state (ap_state g')) = kill_count (player_state (ap_state g))
    \<and> item_count (player_state (ap_state g')) = item_count (player_state (ap_state g))
    \<and> secret_count (player_state (ap_state g')) = secret_count (player_state (ap_state g))
    \<and> (\<forall>i<nat (ap_powerup_count g).
          powers (player_state (ap_state g')) ! i = powers (player_state (ap_state g)) ! i)
    \<and> (\<forall>i<nat (ap_ammo_count g).
          ammo (player_state (ap_state g')) ! i = ammo (player_state (ap_state g)) ! i
          \<and> max_ammo (player_state (ap_state g')) ! i
              = max_ammo (player_state (ap_state g)) ! i)
    \<and> (\<forall>i<nat (ap_weapon_count g).
          weapon_owned (player_state (ap_state g')) ! i
            = weapon_owned (player_state (ap_state f)) ! i
                OR weapon_owned (player_state (ap_state g)) ! i)
    \<and> (\<forall>i<nat (ap_inventory_count g).
          inventory (player_state (ap_state g')) ! i
            = (if i < length (saved_slots g) then saved_slots g ! i
               else inventory (player_state (ap_state f)) ! i))
    \<and> capacity_upgrades (player_state (ap_state g'))
        = capacity_upgrades (player_state (ap_state f))
    \<and> (\<forall>lv\<in>set (level_list d).
          level_states (ap_state g') ! level_offset f lv =
            (level_states (ap_state f) ! level_offset f lv)\<lparr>
              completed := completed (level_states (ap_state f) ! level_offset f lv)
                OR completed (level_states (ap_state g) ! level_offset g lv),
              keys := (keys (level_states (ap_state f) ! level_offset f lv))
                [0 := keys (level_states (ap_state f) ! level_offset f lv) ! 0
                        OR keys (level_states (ap_state g) ! level_offset g lv) ! 0,
                 1 := keys (level_states (ap_state f) ! level_offset f lv) ! 1
                        OR keys (level_states (ap_state g) ! level_offset g lv) ! 1,
                 2 := keys (level_states (ap_state f) ! level_offset f lv) ! 2
                        OR keys (level_states (ap_state g) ! level_offset g lv) ! 2],
              has_map := has_map (level_states (ap_state f) ! level_offset f lv)
                OR has_map (level_states (ap_state g) ! level_offset g lv),
              unlocked := unlocked (level_states (ap_state f) ! level_offset f lv)
                OR unlocked (level_states (ap_state g) ! level_offset g lv),
              special := special (level_states (ap_state f) ! level_offset f lv)
                OR special (level_states (ap_state g) ! level_offset g lv)\<rparr>)
    \<and> ap_item_queue g' = ap_item_queue f @ ap_item_queue g
    \<and> state_ep (ap_state g') = state_ep (ap_state g)
    \<and> state_map (ap_state g') = state_map (ap_state g)
    \<and> set (ap_progressive_locations g')
        = set (ap_progressive_locations f) \<union> set (ap_progressive_locations g)
    \<and> victory (ap_state g') = victory (ap_state f) OR victory (ap_state g)"
proof -
  note members = save_state_members [OF save]
  from members(1) obtain player where
    player: "json_player g = Some player" "json_member file ''player'' = Some player"
    by blast
  from members(2) obtain eps where
    eps: "json_episodes d g = Some eps" "json_member file ''episodes'' = Some (JArray eps)"
    by blast
  have scalars: "is_c_int (state_ep (ap_state g))" "is_c_int (state_map (ap_state g))"
    "is_c_int (victory (ap_state g))"
    using ints by (simp_all add: state_ints_ok_def Let_def)
  have elems: "json_elements (if ap_progressive_locations g = [] then JNull
       else JArray (map JInt (ap_progressive_locations g)))
      = map JInt (ap_progressive_locations g)"
    by (simp add: json_elements_def)
  have elems_queue: "json_elements (JArray (map JInt (ap_item_queue g)))
      = map JInt (ap_item_queue g)"
    by (simp add: json_elements_def)
  from load obtain ps lss queue v_episodes locs where
    ps: "load_player_state file f = Some ps"
    and lss: "load_level_states d file f = Some lss"
    and queue: "for_each (\<lambda>item_id_json q. do { v \<leftarrow> asInt64 item_id_json; Some (q @ [v]) })
        (map JInt (ap_item_queue g)) (ap_item_queue f) = Some queue"
    and locs: "for_each (\<lambda>prog_json s. do { v \<leftarrow> asInt64 prog_json; Some (set_insert v s) })
        (map JInt (ap_progressive_locations g)) (ap_progressive_locations f) = Some locs"
    and g': "g' = f\<lparr>ap_state := (ap_state f)\<lparr>player_state := ps, level_states := lss,
                    state_ep := state_ep (ap_state g), episodes := v_episodes,
                    state_map := state_map (ap_state g),
                    victory := victory (ap_state f) OR victory (ap_state g)\<rparr>,
                 ap_item_queue := queue, ap_progressive_locations := locs\<rparr>"
    by (auto simp: load_state_def members(3-7) elems elems_queue json_get_int_JInt json_get_bool_or_JInt
        scalars bind_eq_Some_conv)
  note pl = load_player_state_saved [OF player ints counts ps]
  have levels: "lss ! level_offset f lv =
            (level_states (ap_state f) ! level_offset f lv)\<lparr>
              completed := completed (level_states (ap_state f) ! level_offset f lv)
                OR completed (level_states (ap_state g) ! level_offset g lv),
              keys := (keys (level_states (ap_state f) ! level_offset f lv))
                [0 := keys (level_states (ap_state f) ! level_offset f lv) ! 0
                        OR keys (level_states (ap_state g) ! level_offset g lv) ! 0,
                 1 := keys (level_states (ap_state f) ! level_offset f lv) ! 1
                        OR keys (level_states (ap_state g) ! level_offset g lv) ! 1,
                 2 := keys (level_states (ap_state f) ! level_offset f lv) ! 2
                        OR keys (level_states (ap_state g) ! level_offset g lv) ! 2],
              has_map := has_map (level_states (ap_state f) ! level_offset f lv)
                OR has_map (level_states (ap_state g) ! level_offset g lv),
              unlocked := unlocked (level_states (ap_state f) ! level_offset f lv)
                OR unlocked (level_states (ap_state g) ! level_offset g lv),
              special := special (level_states (ap_state f) ! level_offset f lv)
                OR special (level_states (ap_state g) ! level_offset g lv)\<rparr>"
    if "lv \<in> set (level_list d)" for lv
    by (rule load_level_states_saved [OF dg df ints eps lss that])
  have st: "player_state (ap_state g') = ps" "level_states (ap_state g') = lss"
    "ap_item_queue g' = queue" "ap_progressive_locations g' = locs"
    "state_ep (ap_state g') = state_ep (ap_state g)"
    "state_map (ap_state g') = state_map (ap_state g)"
    "victory (ap_state g') = victory (ap_state f) OR victory (ap_state g)"
    by (simp_all add: g')
  show ?thesis
    unfolding st
    using pl levels load_item_queue [OF queue] load_progressive_locations [OF locs]
    by (intro conjI allI impI ballI) blast+
qed


theorem save_load_round_trip_witness:
  "(case save_state demo_defs demo_played of
      None \<Rightarrow> False
    | Some js \<Rightarrow>
        (case load_state demo_defs (Some js) demo_fresh of
           None \<Rightarrow> False
         | Some g' \<Rightarrow>
             health (player_state (ap_state g')) = 42
             \<and> ammo (player_state (ap_state g')) ! 1 = 12
             \<and> max_ammo (player_state (ap_state g')) ! 1 = 100
             \<and> weapon_owned (player_state (ap_state g')) ! 2 = 1
             \<and> keys (level_states (ap_state g') ! 0) = [1, 0, 0]
             \<and> ap_item_queue g' = [102, 103]
             \<and> state_ep (ap_state g') = 1 \<and> state_map (ap_state g') = 2
             \<and> set (ap_progressive_locations g') = {502, 511}))"
proof -
  have "save_state demo_defs demo_played \<noteq> None"
    by code_simp
  then obtain js where save: "save_state demo_defs demo_played = Some js"
    by auto
  have "(case save_state demo_defs demo_played of
      None \<Rightarrow> False
    | Some js \<Rightarrow> load_state demo_defs (Some js) demo_fresh \<noteq> None)"
    by code_simp
  with save obtain g' where load: "load_state demo_defs (Some js) demo_fresh = Some g'"
    by auto
  have dims: "dims_ok demo_defs demo_played" "dims_ok demo_defs demo_fresh"
    by code_simp+
  have counts: "ap_powerup_count demo_fresh = ap_powerup_count demo_played"
    "ap_weapon_count demo_fresh = ap_weapon_count demo_played"
    "ap_ammo_count demo_fresh = ap_ammo_count demo_played"
    "ap_inventory_count demo_fresh = ap_inventory_count demo_played"
    by code_simp+
  have ints: "state_ints_ok demo_played"
    by code_simp
  note rt = save_load_round_trip [OF dims counts ints save load]
  have n: "1 < nat (ap_ammo_count demo_played)" "2 < nat (ap_weapon_count demo_played)"
    "(0, 0) \<in> set (level_list demo_defs)"
    by code_simp+
  have saved: "health (player_state (ap_state demo_played)) = 42"
    "ammo (player_state (ap_state demo_played)) ! 1 = 12"
    "max_ammo (player_state (ap_state demo_played)) ! 1 = 100"
    "weapon_owned (player_state (ap_state demo_played)) ! 2 = 1"
    "weapon_owned (player_state (ap_state demo_fresh)) ! 2 = 0"
    "ap_item_queue demo_played = [102, 103]" "ap_item_queue demo_fresh = []"
    "state_ep (ap_state demo_played) = 1" "state_map (ap_state demo_played) = 2"
    "ap_progressive_locations demo_played = [502, 511]"
    "ap_progressive_locations demo_fresh = []"
    "level_offset demo_fresh (0, 0) = 0" "level_offset demo_played (0, 0) = 0"
    "keys (level_states (ap_state demo_played) ! 0) = [1, 0, 0]"
    "keys (level_states (ap_state demo_fresh) ! 0) = [0, 0, 0]"
    by code_simp+
  from rt n(1) have "ammo (player_state (ap_state g')) ! 1 = 12
      \<and> max_ammo (player_state (ap_state g')) ! 1 = 100"
    by (simp only: saved)
  moreover from rt n(2) have "weapon_owned (player_state (ap_state g')) ! 2 = 1"
    by (simp add: saved)
  moreover from rt n(3) have "level_states (ap_state g') ! level_offset demo_fresh (0, 0) =
            (level_states (ap_state demo_fresh) ! level_offset demo_fresh (0, 0))\<lparr>
              completed := completed (level_states (ap_state demo_fresh)
                  ! level_offset demo_fresh (0, 0))
                OR completed (level_states (ap_state demo_played)
                  ! level_offset demo_played (0, 0)),
              keys := (keys (level_states (ap_state demo_fresh) ! level_offset demo_fresh (0, 0)))
                [0 := keys (level_states (ap_state demo_fresh) ! level_offset demo_fresh (0, 0)) ! 0
                        OR keys (level_states (ap_state demo_played)
                          ! level_offset demo_played (0, 0)) ! 0,
                 1 := keys (level_states (ap_state demo_fresh) ! level_offset demo_fresh (0, 0)) ! 1
                        OR keys (level_states (ap_state demo_played)
                          ! level_offset demo_played (0, 0)) ! 1,
                 2 := keys (level_states (ap_state demo_fresh) ! level_offset demo_fresh (0, 0)) ! 2
                        OR keys (level_states (ap_state demo_played)
                          ! level_offset demo_played (0, 0)) ! 2],
              has_map := has_map (level_states (ap_state demo_fresh)
                  ! level_offset demo_fresh (0, 0))
                OR has_map (level_states (ap_state demo_played)
                  ! level_offset demo_played (0, 0)),
              unlocked := unlocked (level_states (ap_state demo_fresh)
                  ! level_offset demo_fresh (0, 0))
                OR unlocked (level_states (ap_state demo_played)
                  ! level_offset demo_played (0, 0)),
              special := special (level_states (ap_state demo_fresh)
                  ! level_offset demo_fresh (0, 0))
                OR special (level_states (ap_state demo_played)
                  ! level_offset demo_played (0, 0))\<rparr>"
    by blast
  then have "keys (level_states (ap_state g') ! 0) = [1, 0, 0]"
    by (simp add: saved)
  moreover from rt have "health (player_state (ap_state g')) = 42"
    "ap_item_queue g' = [102, 103]" "state_ep (ap_state g') = 1" "state_map (ap_state g') = 2"
    "set (ap_progressive_locations g') = {502, 511}"
    by (auto simp: saved)
  ultimately show ?thesis
    by (simp add: save load)
qed

theorem saved_checks_not_restored_counterexample:
  "(case save_state demo_defs demo_played of
      None \<Rightarrow> False
    | Some js \<Rightarrow>
        (case load_state demo_defs (Some js) demo_fresh of
           None \<Rightarrow> False
         | Some g' \<Rightarrow>
             check_count (level_states (ap_state demo_played) ! 0) = 1
             \<and> check_count (level_states (ap_state g') ! 0) = 0
             \<and> checks (level_states (ap_state demo_played) ! 0) ! 0 = 0
             \<and> checks (level_states (ap_state g') ! 0) ! 0 = - 1
             \<and> capacity_upgrades (player_state (ap_state demo_played)) ! 1 = 1
             \<and> capacity_upgrades (player_state (ap_state g')) ! 1 = 0
             \<and> max_ammo (player_state (ap_state g')) ! 1 = 100
             \<and> max_ammo_start (ap_state g') ! 1
                 + max_ammo_add (ap_state g') ! 1 * capacity_upgrades (player_state (ap_state g')) ! 1
                 = 50))"
  by code_simp

section \<open>The maximum ammunition: derived on upgrades, stored in the state file\<close>

lemma load_state_player:
  assumes "load_state d (Some js) f = Some g'"
  shows "load_player_state js f = Some (player_state (ap_state g'))"
  using assms by (auto simp: load_state_def bind_eq_Some_conv)

text \<open>
  C2, as the code has it.  After any sequence of item-received events that contains a
  capacity upgrade (a backpack, doom type 8, or a single-ammo upgrade, doom types
  65001 to 65006), or that starts in a state whose maxima are the derived ones, the
  maximum of every ammunition type \<open>i\<close> is \<open>min 999 (max_ammo_start[i] +
  max_ammo_add[i] * capacity_upgrades[i])\<close>, whatever the maxima were before: every
  capacity upgrade ends with \<^verbatim>\<open>recalc_max_ammo\<close>, and no other item touches the
  four arrays.  This is for events whose arithmetic stays within \<^verbatim>\<open>int\<close> and whose
  array accesses are in range.  The maxima are stored state all the same:
  \<^verbatim>\<open>save_state\<close> writes them and \<^verbatim>\<open>load_state\<close> reads them back, while the
  upgrade counts are not in the file.  So the state loaded from the file of such a
  session has the maxima of that session, derived from its counts, next to the counts
  of the state it was loaded into.
\<close>

theorem max_ammo_derived_after_upgrades:
  assumes run: "f_itemrecv_seq d evs g = Some g1"
    and start: "max_ammo_derived g
      \<or> list_ex (\<lambda>ev. case map_of (get_item_type_table d) (fst ev) of
                        None \<Rightarrow> False | Some item \<Rightarrow> is_capacity_item item) evs"
  shows "(\<forall>i<nat (ap_ammo_count g1).
       max_ammo (player_state (ap_state g1)) ! i =
         min 999 (max_ammo_start (ap_state g1) ! i
                  + max_ammo_add (ap_state g1) ! i
                    * capacity_upgrades (player_state (ap_state g1)) ! i))
    \<and> (state_ints_ok g1
        \<and> ap_powerup_count f = ap_powerup_count g1 \<and> ap_weapon_count f = ap_weapon_count g1
        \<and> ap_ammo_count f = ap_ammo_count g1 \<and> ap_inventory_count f = ap_inventory_count g1
        \<and> save_state d g1 = Some js \<and> load_state d (Some js) f = Some g' \<longrightarrow>
          (\<forall>i<nat (ap_ammo_count g1).
             max_ammo (player_state (ap_state g')) ! i =
               min 999 (max_ammo_start (ap_state g1) ! i
                        + max_ammo_add (ap_state g1) ! i
                          * capacity_upgrades (player_state (ap_state g1)) ! i))
          \<and> capacity_upgrades (player_state (ap_state g'))
              = capacity_upgrades (player_state (ap_state f)))"
proof -
  have derived: "max_ammo (player_state (ap_state g1)) ! i =
         min 999 (max_ammo_start (ap_state g1) ! i
                  + max_ammo_add (ap_state g1) ! i
                    * capacity_upgrades (player_state (ap_state g1)) ! i)"
    if "i < nat (ap_ammo_count g1)" for i
    using f_itemrecv_seq_derived [OF run start] that
    by (simp add: max_ammo_derived_def derived_max_ammo_def list_all_iff)
  have stored: "(\<forall>i<nat (ap_ammo_count g1).
             max_ammo (player_state (ap_state g')) ! i =
               min 999 (max_ammo_start (ap_state g1) ! i
                        + max_ammo_add (ap_state g1) ! i
                          * capacity_upgrades (player_state (ap_state g1)) ! i))
          \<and> capacity_upgrades (player_state (ap_state g'))
              = capacity_upgrades (player_state (ap_state f))"
    if ints: "state_ints_ok g1"
      and counts: "ap_powerup_count f = ap_powerup_count g1" "ap_weapon_count f = ap_weapon_count g1"
        "ap_ammo_count f = ap_ammo_count g1" "ap_inventory_count f = ap_inventory_count g1"
      and save: "save_state d g1 = Some js"
      and load: "load_state d (Some js) f = Some g'"
  proof -
    from save_state_members(1) [OF save] obtain player where
      player: "json_player g1 = Some player" "json_member js ''player'' = Some player"
      by blast
    note pl = load_player_state_saved [OF player ints counts load_state_player [OF load]]
    from pl(11) derived have "\<forall>i<nat (ap_ammo_count g1).
             max_ammo (player_state (ap_state g')) ! i =
               min 999 (max_ammo_start (ap_state g1) ! i
                        + max_ammo_add (ap_state g1) ! i
                          * capacity_upgrades (player_state (ap_state g1)) ! i)"
      by simp
    with pl(8) show ?thesis by simp
  qed
  from derived stored show ?thesis by blast
qed

text \<open>
  Three backpacks and a shell upgrade in the small game: the cells reach the cap of
  999, the shells 50 + 50 * 4.  Saved and loaded into the fresh state with its
  maxima recomputed, the session has these maxima and no upgrade.
\<close>

theorem max_ammo_derived_after_upgrades_witness:
  "(case f_itemrecv_seq demo_defs
           [(101, 0, False), (101, 0, True), (103, 0, True), (101, 0, True)] demo_fresh of
      None \<Rightarrow> False
    | Some g1 \<Rightarrow>
        capacity_upgrades (player_state (ap_state g1)) = [3, 4, 3, 3]
        \<and> max_ammo (player_state (ap_state g1)) ! 1 = 250
        \<and> max_ammo (player_state (ap_state g1)) ! 2 = 999
        \<and> (case save_state demo_defs g1 of
             None \<Rightarrow> False
           | Some js \<Rightarrow>
               (case recalc_max_ammo demo_fresh of
                  None \<Rightarrow> False
                | Some f \<Rightarrow>
                    (case load_state demo_defs (Some js) f of
                       None \<Rightarrow> False
                     | Some g' \<Rightarrow>
                         max_ammo (player_state (ap_state g')) ! 1 = 250
                         \<and> max_ammo (player_state (ap_state g')) ! 2 = 999
                         \<and> capacity_upgrades (player_state (ap_state g')) = [0, 0, 0, 0]))))"
proof -
  have "map_option (\<lambda>g1. (capacity_upgrades (player_state (ap_state g1)),
            max_ammo_start (ap_state g1), max_ammo_add (ap_state g1), ap_ammo_count g1,
            state_ints_ok g1, ap_powerup_count g1, ap_weapon_count g1, ap_inventory_count g1))
      (f_itemrecv_seq demo_defs
           [(101, 0, False), (101, 0, True), (103, 0, True), (101, 0, True)] demo_fresh)
    = Some ([3, 4, 3, 3], [200, 50, 300, 50], [200, 50, 300, 50], 4, True, 6, 9, 0)"
    by code_simp
  then obtain g1 where
    run: "f_itemrecv_seq demo_defs
           [(101, 0, False), (101, 0, True), (103, 0, True), (101, 0, True)] demo_fresh = Some g1"
    and vals: "capacity_upgrades (player_state (ap_state g1)) = [3, 4, 3, 3]"
      "max_ammo_start (ap_state g1) = [200, 50, 300, 50]"
      "max_ammo_add (ap_state g1) = [200, 50, 300, 50]"
      "ap_ammo_count g1 = 4"
    and ints: "state_ints_ok g1"
    and counts1: "ap_powerup_count g1 = 6" "ap_weapon_count g1 = 9" "ap_inventory_count g1 = 0"
    by auto
  have ev: "max_ammo_derived demo_fresh
      \<or> list_ex (\<lambda>ev. case map_of (get_item_type_table demo_defs) (fst ev) of
                        None \<Rightarrow> False | Some item \<Rightarrow> is_capacity_item item)
          [(101, 0, False), (101, 0, True), (103, 0, True), (101, 0, True)]"
    by code_simp
  have "map_option (\<lambda>f. (capacity_upgrades (player_state (ap_state f)), ap_powerup_count f,
            ap_weapon_count f, ap_ammo_count f, ap_inventory_count f))
      (recalc_max_ammo demo_fresh) = Some ([0, 0, 0, 0], 6, 9, 4, 0)"
    by code_simp
  then obtain f where
    fresh: "recalc_max_ammo demo_fresh = Some f"
    and fvals: "capacity_upgrades (player_state (ap_state f)) = [0, 0, 0, 0]"
    and counts: "ap_powerup_count f = ap_powerup_count g1" "ap_weapon_count f = ap_weapon_count g1"
      "ap_ammo_count f = ap_ammo_count g1" "ap_inventory_count f = ap_inventory_count g1"
    using vals(4) counts1 by auto
  have "(case f_itemrecv_seq demo_defs
           [(101, 0, False), (101, 0, True), (103, 0, True), (101, 0, True)] demo_fresh of
      None \<Rightarrow> False
    | Some g1 \<Rightarrow>
        (case save_state demo_defs g1 of
           None \<Rightarrow> False
         | Some js \<Rightarrow>
             (case recalc_max_ammo demo_fresh of
                None \<Rightarrow> False
              | Some f \<Rightarrow> load_state demo_defs (Some js) f \<noteq> None)))"
    by code_simp
  with run fresh obtain js g' where
    save: "save_state demo_defs g1 = Some js"
    and load: "load_state demo_defs (Some js) f = Some g'"
    by (auto split: option.splits)
  note main = max_ammo_derived_after_upgrades [OF run ev, where f = f and js = js and g' = g']
  from main vals
  have a: "max_ammo (player_state (ap_state g1)) ! 1 = 250
      \<and> max_ammo (player_state (ap_state g1)) ! 2 = 999"
    by (simp add: eval_nat_numeral)
  from main ints counts save load vals fvals
  have b: "max_ammo (player_state (ap_state g')) ! 1 = 250
      \<and> max_ammo (player_state (ap_state g')) ! 2 = 999
      \<and> capacity_upgrades (player_state (ap_state g')) = [0, 0, 0, 0]"
    by (simp add: eval_nat_numeral)
  from a b vals(1) show ?thesis
    by (simp only: run save fresh load option.case simp_thms)
qed

text \<open>
  The claim as the specification words it fails after a load.  A session with one
  shell upgrade is saved and loaded into the fresh state, whose maxima
  \<^verbatim>\<open>apdoom_init\<close> has recomputed just before: the loaded maximum of the shells is
  the stored 100 where the loaded values give \<open>min 999 (50 + 50 * 0) = 50\<close>, and it
  stays so when the blue keycard is received.
\<close>

theorem max_ammo_persisted_counterexample:
  "(case f_itemrecv_seq demo_defs [(103, 0, False)] demo_fresh of
      None \<Rightarrow> False
    | Some g1 \<Rightarrow>
        (case save_state demo_defs g1 of
           None \<Rightarrow> False
         | Some js \<Rightarrow>
             (case recalc_max_ammo demo_fresh of
                None \<Rightarrow> False
              | Some f \<Rightarrow>
                  (case load_state demo_defs (Some js) f of
                     None \<Rightarrow> False
                   | Some g' \<Rightarrow>
                       max_ammo (player_state (ap_state f)) = [200, 50, 300, 50]
                       \<and> max_ammo (player_state (ap_state g')) = [200, 100, 300, 50]
                       \<and> capacity_upgrades (player_state (ap_state g')) = [0, 0, 0, 0]
                       \<and> max_ammo_start (ap_state g') = [200, 50, 300, 50]
                       \<and> max_ammo_add (ap_state g') = [200, 50, 300, 50]
                       \<and> derived_max_ammo (ap_state g') 1 = 50
                       \<and> max_ammo_derived g' = False
                       \<and> (case f_itemrecv demo_defs 102 0 False g' of
                            None \<Rightarrow> False
                          | Some g2 \<Rightarrow>
                              max_ammo (player_state (ap_state g2)) ! 1 = 100
                              \<and> derived_max_ammo (ap_state g2) 1 = 50
                              \<and> max_ammo_derived g2 = False)))))"
  by code_simp

end
